theory Spec2Isabelle
  imports Complex_Main
begin

section \<open>Values\<close>

text \<open>
  A JavaScript number is a real or \<open>NaN\<close>. Arithmetic is exact: the rounding of binary
  floating point is left out, and so are the two infinities, which the range check of
  \<open>assertRgbColor\<close> turns away like any other number beyond 255 and which no
  operation below produces from numbers that passed it.
  A string is a list of characters with codes below 256.
\<close>

datatype number = NaN | Fin real

text \<open>An operand that is \<open>NaN\<close> makes the result \<open>NaN\<close>; a comparison with it is false.\<close>

fun num_add :: "number \<Rightarrow> number \<Rightarrow> number" where
  "num_add (Fin a) (Fin b) = Fin (a + b)"
| "num_add _ _ = NaN"

fun num_mul :: "number \<Rightarrow> number \<Rightarrow> number" where
  "num_mul (Fin a) (Fin b) = Fin (a * b)"
| "num_mul _ _ = NaN"

text \<open>
  \<open>0 / 0\<close> is \<open>NaN\<close>. Another number over zero is an infinity in JavaScript; every divisor
  of this program is a positive constant or a luminance plus 0.05 (lemma
  \<open>contrast_divisor_positive\<close> below), so that case is given \<open>NaN\<close> here and never taken.
\<close>

fun num_div :: "number \<Rightarrow> number \<Rightarrow> number" where
  "num_div (Fin a) (Fin b) = (if b = 0 then NaN else Fin (a / b))"
| "num_div _ _ = NaN"

text \<open>
  \<open>x ** y\<close> for an exponent that is not an integer (here always 2.4): \<open>NaN\<close> for a
  negative base.
\<close>

fun num_pow :: "number \<Rightarrow> number \<Rightarrow> number" where
  "num_pow (Fin a) (Fin b) = (if a < 0 then NaN else Fin (a powr b))"
| "num_pow _ _ = NaN"

fun num_lt :: "number \<Rightarrow> number \<Rightarrow> bool" where
  "num_lt (Fin a) (Fin b) = (a < b)"
| "num_lt _ _ = False"

fun num_gt :: "number \<Rightarrow> number \<Rightarrow> bool" where
  "num_gt (Fin a) (Fin b) = (a > b)"
| "num_gt _ _ = False"

text \<open>\<open>a !== b\<close> on numbers: \<open>NaN\<close> differs from everything, itself included.\<close>

fun strictNotEqual :: "number \<Rightarrow> number \<Rightarrow> bool" where
  "strictNotEqual (Fin a) (Fin b) = (a \<noteq> b)"
| "strictNotEqual _ _ = True"

text \<open>
  A colour is a string or an array of numbers (\<open>OpaqueColor\<close>). The two error classes
  carry the literal they were raised for; the model keeps the literal itself where the
  source renders an array as \<open>[r, g, b]\<close> for the message.
\<close>

datatype color = Str string | Arr "number list"

datatype error = UnsupportedFormat color | NeedsAlphaBlending color number

section \<open>Reading digits\<close>

text \<open>Characters are compared by their codes: \<open>0\<close> is 48, \<open>A\<close> is 65, \<open>a\<close> is 97.\<close>

definition code :: "char \<Rightarrow> nat" where
  "code c = of_char c"

definition isDigit :: "char \<Rightarrow> bool" where
  "isDigit c = (48 \<le> code c \<and> code c \<le> 57)"

definition digitValue :: "char \<Rightarrow> nat" where
  "digitValue c = code c - 48"

definition hexValue :: "char \<Rightarrow> nat option" where
  "hexValue c =
     (if 48 \<le> code c \<and> code c \<le> 57 then Some (code c - 48)
      else if 97 \<le> code c \<and> code c \<le> 102 then Some (code c - 87)
      else if 65 \<le> code c \<and> code c \<le> 70 then Some (code c - 55)
      else None)"

definition isHex :: "char \<Rightarrow> bool" where
  "isHex c = (hexValue c \<noteq> None)"

text \<open>The white space \<open>parseInt\<close> skips, among the characters below 256.\<close>

definition isWhiteSpace :: "char \<Rightarrow> bool" where
  "isWhiteSpace c = (code c \<in> {9, 10, 11, 12, 13, 32, 160})"

text \<open>
  \<open>parseInt(s, 16)\<close>: leading white space is skipped, then a sign, then \<open>0x\<close> or \<open>0X\<close>;
  the longest run of hexadecimal digits that follows is the number, whatever comes after
  it, and an empty run gives \<open>NaN\<close>.
\<close>

definition parseInt16 :: "string \<Rightarrow> number" where
  "parseInt16 s =
     (let s1 = dropWhile isWhiteSpace s;
          neg = (s1 \<noteq> [] \<and> hd s1 = CHR ''-'');
          s2 = (if s1 \<noteq> [] \<and> (hd s1 = CHR ''-'' \<or> hd s1 = CHR ''+'') then tl s1 else s1);
          s3 = (if 2 \<le> length s2 \<and> (take 2 s2 = ''0x'' \<or> take 2 s2 = ''0X'')
                then drop 2 s2 else s2);
          z = takeWhile isHex s3
      in if z = [] then NaN
         else Fin ((if neg then - 1 else 1) *
                   real (foldl (\<lambda>a c. 16 * a + the (hexValue c)) 0 z)))"

definition hexToByte :: "string \<Rightarrow> number" where
  "hexToByte hex = parseInt16 hex"

text \<open>\<open>s.slice(i, j)\<close> for \<open>0 \<le> i \<le> j\<close>.\<close>

definition slice :: "nat \<Rightarrow> nat \<Rightarrow> string \<Rightarrow> string" where
  "slice i j s = take (j - i) (drop i s)"

section \<open>Luminance of an array\<close>

definition componentsToLuminance :: "number \<Rightarrow> number \<Rightarrow> number \<Rightarrow> number" where
  "componentsToLuminance r g b =
     (let rl = (if num_gt r (Fin 0.03928)
                then num_pow (num_div (num_add r (Fin 0.055)) (Fin 1.055)) (Fin 2.4)
                else num_div r (Fin 12.92));
          gl = (if num_gt g (Fin 0.03928)
                then num_pow (num_div (num_add g (Fin 0.055)) (Fin 1.055)) (Fin 2.4)
                else num_div g (Fin 12.92));
          bl = (if num_gt b (Fin 0.03928)
                then num_pow (num_div (num_add b (Fin 0.055)) (Fin 1.055)) (Fin 2.4)
                else num_div b (Fin 12.92))
      in num_add (num_add (num_mul (Fin 0.2126) rl) (num_mul (Fin 0.7152) gl))
           (num_mul (Fin 0.0722) bl))"

text \<open>\<open>assertRgbColor\<close> returns the error it throws, or \<open>None\<close> when it returns.\<close>

definition assertRgbColor :: "number list \<Rightarrow> error option" where
  "assertRgbColor color =
     (if length color < 3 \<or> length color > 4 \<or>
         list_ex (\<lambda>d. num_lt d (Fin 0) \<or> num_gt d (Fin 255)) color
      then Some (UnsupportedFormat (Arr color))
      else if length color = 4 \<and> strictNotEqual (color ! 3) (Fin 1)
      then Some (NeedsAlphaBlending (Arr color) (color ! 3))
      else None)"

text \<open>
  The last two statements of \<open>colorLuminance\<close>, which an array reaches directly and a
  string through the recursive call. The three reads are in range once the assertion
  has passed.
\<close>

definition arrayLuminance :: "number list \<Rightarrow> error + number" where
  "arrayLuminance color =
     (case assertRgbColor color of
        Some e \<Rightarrow> Inl e
      | None \<Rightarrow>
          Inr (componentsToLuminance (num_div (color ! 0) (Fin 255))
                 (num_div (color ! 1) (Fin 255)) (num_div (color ! 2) (Fin 255))))"

section \<open>The pattern\<close>

text \<open>
  The regular expressions the program needs: a literal character, the class \<open>[0-9]\<close>,
  sequence, alternative, \<open>r?\<close>, \<open>r*\<close>, a numbered capturing group and the empty pattern.
  \<open>r+\<close> is \<open>r\<close> followed by \<open>r*\<close>, and a group \<open>(?:r)\<close> that does not capture is \<open>r\<close>
  itself.
\<close>

datatype regex =
    Lit char
  | Digit
  | Seq regex regex
  | Alt regex regex
  | Opt regex
  | Star regex
  | Group nat regex
  | Eps

definition Plus :: "regex \<Rightarrow> regex" where
  "Plus r = Seq r (Star r)"

text \<open>A sequence of several parts, as the pattern writes them side by side.\<close>

fun seqs :: "regex list \<Rightarrow> regex" where
  "seqs [r] = r"
| "seqs (r # rs) = Seq r (seqs rs)"
| "seqs [] = Eps"

type_synonym captures = "nat \<Rightarrow> string option"

text \<open>
  Backtracking as a list of successes: \<open>run r (s, c)\<close> lists, in the order the matcher
  tries them, the ways \<open>r\<close> can match at the start of \<open>s\<close>, each as what is left of \<open>s\<close>
  with the captures. The quantifiers are greedy, so one more round comes before none; a
  round of \<open>r*\<close> that consumes nothing is not taken.
\<close>

function run :: "regex \<Rightarrow> string \<times> captures \<Rightarrow> (string \<times> captures) list" where
  "run (Lit x) (s, c) = (case s of [] \<Rightarrow> [] | y # t \<Rightarrow> if y = x then [(t, c)] else [])"
| "run Digit (s, c) = (case s of [] \<Rightarrow> [] | y # t \<Rightarrow> if isDigit y then [(t, c)] else [])"
| "run (Seq a b) (s, c) = concat (map (run b) (run a (s, c)))"
| "run (Alt a b) (s, c) = run a (s, c) @ run b (s, c)"
| "run (Opt a) (s, c) = run a (s, c) @ [(s, c)]"
| "run (Star a) (s, c) =
     concat (map (\<lambda>st. if length (fst st) < length s then run (Star a) st else [])
                 (run a (s, c))) @ [(s, c)]"
| "run (Group i a) (s, c) =
     map (\<lambda>st. (fst st, (snd st)(i \<mapsto> take (length s - length (fst st)) s))) (run a (s, c))"
| "run Eps (s, c) = [(s, c)]"
  by pat_completeness auto
termination
  by (relation "inv_image (less_than <*lex*> less_than) (\<lambda>(r, st). (size r, length (fst st)))")
     auto

text \<open>
  \<open>s.match(r)\<close> for a pattern without the \<open>g\<close> flag: the first match at the leftmost
  position that has one, as its captures, or \<open>None\<close> for \<open>null\<close>.
\<close>

fun match :: "regex \<Rightarrow> string \<Rightarrow> captures option" where
  "match r s =
     (case run r (s, \<lambda>i. None) of
        st # _ \<Rightarrow> Some (snd st)
      | [] \<Rightarrow> (case s of [] \<Rightarrow> None | _ # t \<Rightarrow> match r t))"

text \<open>\<open>/rgba?\(([0-9]+),([0-9]+),([0-9]+)(?:,(1|0|0?\.[0-9]*))?\)/\<close>\<close>

definition RGBA_PATTERN :: regex where
  "RGBA_PATTERN =
     seqs [Lit CHR ''r'', Lit CHR ''g'', Lit CHR ''b'', Opt (Lit CHR ''a''), Lit CHR ''('',
           Group 1 (Plus Digit), Lit CHR '','',
           Group 2 (Plus Digit), Lit CHR '','',
           Group 3 (Plus Digit),
           Opt (seqs [Lit CHR '','',
                      Group 4 (Alt (Lit CHR ''1'') (Alt (Lit CHR ''0'')
                        (seqs [Opt (Lit CHR ''0''), Lit CHR ''.'', Star Digit])))]),
           Lit CHR '')'']"

text \<open>
  \<open>Number(s)\<close> for the strings the pattern captures, made of digits and at most one
  point: the empty string is 0, a point alone is \<open>NaN\<close>, and digits may be missing on
  one side of the point. Other strings (signs, exponents, white space) do not reach it
  and are given \<open>NaN\<close>.
\<close>

definition decimalValue :: "string \<Rightarrow> nat" where
  "decimalValue ds = foldl (\<lambda>a c. 10 * a + digitValue c) 0 ds"

definition toNumber :: "string \<Rightarrow> number" where
  "toNumber s =
     (let ip = takeWhile isDigit s; rest = dropWhile isDigit s
      in case rest of
           [] \<Rightarrow> Fin (real (decimalValue ip))
         | x # fp \<Rightarrow>
             if x = CHR ''.'' \<and> list_all isDigit fp \<and> (ip \<noteq> [] \<or> fp \<noteq> [])
             then Fin (real (decimalValue ip) + real (decimalValue fp) / 10 ^ length fp)
             else NaN)"

text \<open>\<open>Number(x)\<close> of a capture: a group that took no part is \<open>undefined\<close>, which gives \<open>NaN\<close>.\<close>

definition numberOf :: "string option \<Rightarrow> number" where
  "numberOf x = (case x of None \<Rightarrow> NaN | Some s \<Rightarrow> toNumber s)"

section \<open>The cache\<close>

text \<open>
  \<open>CACHE\<close> is a plain object: its own properties are the luminances stored under the
  strings they were computed for. A read \<open>CACHE[color]\<close> that finds no own property goes
  on to \<open>Object.prototype\<close>, and for the names of its members finds a function or an
  object instead of \<open>undefined\<close>.
\<close>

type_synonym cache = "string \<Rightarrow> number option"

datatype jsvalue = Number number | Inherited string

definition Object_prototype :: "string list" where
  "Object_prototype =
     [''constructor'', ''hasOwnProperty'', ''isPrototypeOf'', ''propertyIsEnumerable'',
      ''toLocaleString'', ''toString'', ''valueOf'', ''__proto__'',
      ''__defineGetter__'', ''__defineSetter__'', ''__lookupGetter__'', ''__lookupSetter__'']"

text \<open>\<open>CACHE[color]\<close>, with \<open>None\<close> for \<open>undefined\<close>.\<close>

definition lookup :: "cache \<Rightarrow> string \<Rightarrow> jsvalue option" where
  "lookup CACHE color =
     (case CACHE color of
        Some l \<Rightarrow> Some (Number l)
      | None \<Rightarrow> if color \<in> set Object_prototype then Some (Inherited color) else None)"

text \<open>What counts as true in a condition: not \<open>undefined\<close>, not 0, not \<open>NaN\<close>.\<close>

fun truthy :: "jsvalue option \<Rightarrow> bool" where
  "truthy None = False"
| "truthy (Some (Number NaN)) = False"
| "truthy (Some (Number (Fin x))) = (x \<noteq> 0)"
| "truthy (Some (Inherited k)) = True"

section \<open>Luminance of a colour\<close>

text \<open>
  \<open>return (CACHE[color] = colorLuminance([r, g, b]))\<close>: the call on the array comes first,
  and when it throws nothing is stored.
\<close>

definition assign :: "string \<Rightarrow> number list \<Rightarrow> cache \<Rightarrow> (error + jsvalue) \<times> cache" where
  "assign color rgb CACHE =
     (case arrayLuminance rgb of
        Inl e \<Rightarrow> (Inl e, CACHE)
      | Inr l \<Rightarrow> (Inr (Number l), CACHE(color \<mapsto> l)))"

text \<open>
  \<open>colorLuminance(color, cache)\<close> takes the cache object as it is and returns it as the
  call leaves it, next to the value returned (\<open>Inr\<close>) or the error thrown (\<open>Inl\<close>).
\<close>

definition colorLuminance :: "color \<Rightarrow> bool \<Rightarrow> cache \<Rightarrow> (error + jsvalue) \<times> cache" where
  "colorLuminance color cache CACHE =
     (case color of
        Str s \<Rightarrow>
          if cache \<and> truthy (lookup CACHE s) then (Inr (the (lookup CACHE s)), CACHE)
          else if s \<noteq> [] \<and> hd s = CHR ''#'' then
            (let rgb = drop 1 s
             in if length rgb = 3
                then assign s [hexToByte [rgb ! 0, rgb ! 0],
                               hexToByte [rgb ! 1, rgb ! 1],
                               hexToByte [rgb ! 2, rgb ! 2]] CACHE
                else if length rgb = 8 \<and> strictNotEqual (hexToByte (slice 6 8 rgb)) (Fin 255)
                then (Inl (NeedsAlphaBlending (Str s) (hexToByte (slice 6 8 rgb))), CACHE)
                else if length rgb = 6 \<or> length rgb = 8
                then assign s [hexToByte (slice 0 2 rgb),
                               hexToByte (slice 2 4 rgb),
                               hexToByte (slice 4 6 rgb)] CACHE
                else (Inl (UnsupportedFormat (Str s)), CACHE))
          else
            (case match RGBA_PATTERN (filter (\<lambda>x. x \<noteq> CHR '' '') s) of
               Some matches \<Rightarrow>
                 if matches 4 \<noteq> None \<and> matches 4 \<noteq> Some [] \<and> matches 4 \<noteq> Some ''1''
                 then (Inl (NeedsAlphaBlending (Str s) (numberOf (matches 4))), CACHE)
                 else assign s [numberOf (matches 1), numberOf (matches 2),
                                numberOf (matches 3)] CACHE
             | None \<Rightarrow> (Inl (UnsupportedFormat (Str s)), CACHE))
      | Arr a \<Rightarrow>
          (case arrayLuminance a of
             Inl e \<Rightarrow> (Inl e, CACHE)
           | Inr l \<Rightarrow> (Inr (Number l), CACHE)))"

section \<open>Contrast\<close>

text \<open>
  \<open>[la, lb].sort()\<close> is called without a comparison function, so it orders its elements
  by their string forms, character code by character code, a proper prefix first.
\<close>

fun stringLess :: "string \<Rightarrow> string \<Rightarrow> bool" where
  "stringLess [] [] = False"
| "stringLess [] (y # ys) = True"
| "stringLess (x # xs) [] = False"
| "stringLess (x # xs) (y # ys) = (code x < code y \<or> (x = y \<and> stringLess xs ys))"

fun decimal :: "nat \<Rightarrow> string" where
  "decimal n = (if n < 10 then [char_of (48 + n)]
                else decimal (n div 10) @ [char_of (48 + n mod 10)])"

definition stripZeros :: "string \<Rightarrow> string" where
  "stripZeros ds = rev (dropWhile (\<lambda>x. x = CHR ''0'') (rev ds))"

text \<open>
  The string form of a positive number, as \<open>Number::toString\<close> lays it out from the
  digits \<open>ds\<close> of the number, their count \<open>k\<close> and the position \<open>n\<close> of the decimal point
  (\<open>10 ^ (n - 1) \<le> v < 10 ^ n\<close>): plain digits up to \<open>n = 21\<close>, a leading \<open>0.\<close> down to
  \<open>n = -5\<close>, and the exponent notation beyond. JavaScript prints the fewest digits that
  tell the double from its neighbours, never more than 17; the model prints the first
  17 significant digits of the exact value, without the zeros at their end.
\<close>

definition positiveToString :: "real \<Rightarrow> string" where
  "positiveToString v =
     (let n = \<lfloor>log 10 v\<rfloor> + 1;
          ds = stripZeros (decimal (nat \<lfloor>v * 10 powi (17 - n)\<rfloor>));
          k = int (length ds)
      in if k \<le> n \<and> n \<le> 21 then ds @ replicate (nat (n - k)) CHR ''0''
         else if 0 < n \<and> n \<le> 21 then take (nat n) ds @ ''.'' @ drop (nat n) ds
         else if - 6 < n \<and> n \<le> 0 then ''0.'' @ replicate (nat (- n)) CHR ''0'' @ ds
         else (if k = 1 then ds else hd ds # CHR ''.'' # tl ds) @ ''e'' @
              (if n - 1 < 0 then ''-'' else ''+'') @ decimal (nat \<bar>n - 1\<bar>))"

definition numberToString :: "number \<Rightarrow> string" where
  "numberToString x =
     (case x of
        NaN \<Rightarrow> ''NaN''
      | Fin v \<Rightarrow> if v = 0 then ''0''
                 else if v < 0 then CHR ''-'' # positiveToString (- v)
                 else positiveToString v)"

text \<open>\<open>[la, lb].sort()\<close> as the pair of its two elements.\<close>

definition sort2 :: "number \<Rightarrow> number \<Rightarrow> number \<times> number" where
  "sort2 la lb =
     (if stringLess (numberToString lb) (numberToString la) then (lb, la) else (la, lb))"

text \<open>
  \<open>contrast\<close> reads the luminance of both colours through the cache, the first error
  ending the call. A value the cache object inherited is not a number: \<open>+ 0.05\<close> appends
  to its string form, and the division gives \<open>NaN\<close> whichever side it stands on.
\<close>

definition contrast :: "color \<Rightarrow> color \<Rightarrow> cache \<Rightarrow> (error + number) \<times> cache" where
  "contrast color background CACHE =
     (case colorLuminance color True CACHE of
        (Inl e, C1) \<Rightarrow> (Inl e, C1)
      | (Inr la, C1) \<Rightarrow>
          (case colorLuminance background True C1 of
             (Inl e, C2) \<Rightarrow> (Inl e, C2)
           | (Inr lb, C2) \<Rightarrow>
               (case (la, lb) of
                  (Number a, Number b) \<Rightarrow>
                    (let (l2, l1) = sort2 a b
                     in (Inr (num_div (num_add l1 (Fin 0.05)) (num_add l2 (Fin 0.05))), C2))
                | _ \<Rightarrow> (Inr NaN, C2))))"

section \<open>The luminance formula of the specification\<close>

text \<open>
  Written from the specification: a channel scaled to \<open>[0, 1]\<close> is linearised as
  \<open>((c + 0.055) / 1.055) ^ 2.4\<close> when \<open>c > 0.03928\<close> and as \<open>c / 12.92\<close> otherwise, and the
  luminance is \<open>0.2126 * R + 0.7152 * G + 0.0722 * B\<close> of the linearised channels.
\<close>

definition spec_linear :: "real \<Rightarrow> real" where
  "spec_linear c = (if c > 0.03928 then ((c + 0.055) / 1.055) powr 2.4 else c / 12.92)"

definition spec_luminance :: "real \<Rightarrow> real \<Rightarrow> real \<Rightarrow> real" where
  "spec_luminance r g b =
     0.2126 * spec_linear (r / 255) + 0.7152 * spec_linear (g / 255) +
     0.0722 * spec_linear (b / 255)"

section \<open>The string branch without the cache\<close>

text \<open>
  The string branch of \<open>colorLuminance\<close> past the cache lookup, as the array it hands to
  the recursive call or the error it throws before that. Lemma \<open>colorLuminance_Str\<close>
  ties it to \<open>colorLuminance\<close>.
\<close>

definition components :: "string \<Rightarrow> error + number list" where
  "components s =
     (if s \<noteq> [] \<and> hd s = CHR ''#'' then
        (let rgb = drop 1 s
         in if length rgb = 3
            then Inr [hexToByte [rgb ! 0, rgb ! 0],
                      hexToByte [rgb ! 1, rgb ! 1],
                      hexToByte [rgb ! 2, rgb ! 2]]
            else if length rgb = 8 \<and> strictNotEqual (hexToByte (slice 6 8 rgb)) (Fin 255)
            then Inl (NeedsAlphaBlending (Str s) (hexToByte (slice 6 8 rgb)))
            else if length rgb = 6 \<or> length rgb = 8
            then Inr [hexToByte (slice 0 2 rgb),
                      hexToByte (slice 2 4 rgb),
                      hexToByte (slice 4 6 rgb)]
            else Inl (UnsupportedFormat (Str s)))
      else
        (case match RGBA_PATTERN (filter (\<lambda>x. x \<noteq> CHR '' '') s) of
           Some matches \<Rightarrow>
             if matches 4 \<noteq> None \<and> matches 4 \<noteq> Some [] \<and> matches 4 \<noteq> Some ''1''
             then Inl (NeedsAlphaBlending (Str s) (numberOf (matches 4)))
             else Inr [numberOf (matches 1), numberOf (matches 2), numberOf (matches 3)]
         | None \<Rightarrow> Inl (UnsupportedFormat (Str s))))"

text \<open>The luminance a string gets when the cache does not answer for it.\<close>

definition fresh :: "string \<Rightarrow> error + number" where
  "fresh s = (case components s of Inl e \<Rightarrow> Inl e | Inr rgb \<Rightarrow> arrayLuminance rgb)"

text \<open>
  The states of the cache: empty when the module is loaded, and changed by calls of
  \<open>colorLuminance\<close> only (\<open>contrast\<close> and the hooks go through it).
\<close>

inductive reachable :: "cache \<Rightarrow> bool" where
  initial: "reachable Map.empty"
| call: "reachable C \<Longrightarrow> reachable (snd (colorLuminance color cache C))"

definition consistent :: "cache \<Rightarrow> bool" where
  "consistent C = (\<forall>s l. C s = Some l \<longrightarrow> fresh s = Inr l)"

section \<open>The functional notation in words\<close>

text \<open>
  The strings the pattern matches, put together from their parts: \<open>rgb\<close> or \<open>rgba\<close>, three
  unsigned integers between parentheses, and an alpha component or none. What the
  pattern takes as an alpha component is \<open>1\<close>, \<open>0\<close>, or a point followed by digits, with
  or without a \<open>0\<close> before the point.
\<close>

definition unsigned :: "string \<Rightarrow> bool" where
  "unsigned n = (n \<noteq> [] \<and> list_all isDigit n)"

definition alphaForm :: "string \<Rightarrow> bool" where
  "alphaForm x =
     (x = ''1'' \<or> x = ''0'' \<or>
      (take 1 x = ''.'' \<and> list_all isDigit (drop 1 x)) \<or>
      (take 2 x = ''0.'' \<and> list_all isDigit (drop 2 x)))"

definition rgbaText :: "bool \<Rightarrow> string \<Rightarrow> string \<Rightarrow> string \<Rightarrow> string option \<Rightarrow> string" where
  "rgbaText a n1 n2 n3 al =
     ''rgb'' @ (if a then ''a'' else []) @ ''('' @ n1 @ '','' @ n2 @ '','' @ n3 @
     (case al of None \<Rightarrow> [] | Some x \<Rightarrow> CHR '','' # x) @ '')''"

definition wellFormed :: "string \<Rightarrow> string \<Rightarrow> string \<Rightarrow> string option \<Rightarrow> bool" where
  "wellFormed n1 n2 n3 al =
     (unsigned n1 \<and> unsigned n2 \<and> unsigned n3 \<and>
      (case al of None \<Rightarrow> True | Some x \<Rightarrow> alphaForm x))"

text \<open>Some part of the string has that form.\<close>

definition occurs :: "string \<Rightarrow> bool" where
  "occurs t =
     (\<exists>pre post a n1 n2 n3 al.
        wellFormed n1 n2 n3 al \<and> t = pre @ rgbaText a n1 n2 n3 al @ post)"

text \<open>
  Two parts of the pattern by name, and the captures a match leaves: the three numbers
  in groups 1 to 3 and the alpha component, when there is one, in group 4.
\<close>

definition ALPHA :: regex where
  "ALPHA = Alt (Lit CHR ''1'') (Alt (Lit CHR ''0'')
             (seqs [Opt (Lit CHR ''0''), Lit CHR ''.'', Star Digit]))"

definition TAIL :: regex where
  "TAIL = seqs [Opt (seqs [Lit CHR '','', Group 4 ALPHA]), Lit CHR '')'']"

definition captured :: "captures \<Rightarrow> string \<Rightarrow> string \<Rightarrow> string \<Rightarrow> string option \<Rightarrow> captures" where
  "captured c n1 n2 n3 al =
     (case al of None \<Rightarrow> c(1 \<mapsto> n1, 2 \<mapsto> n2, 3 \<mapsto> n3)
               | Some x \<Rightarrow> c(1 \<mapsto> n1, 2 \<mapsto> n2, 3 \<mapsto> n3, 4 \<mapsto> x))"

section \<open>Bytes, and the grammar as the specification words it\<close>

text \<open>The byte two hexadecimal digits stand for.\<close>

definition byte :: "char \<Rightarrow> char \<Rightarrow> nat" where
  "byte x y = 16 * the (hexValue x) + the (hexValue y)"

text \<open>
  The grammar as the specification words it: the alpha component is \<open>1\<close>, \<open>0\<close>, or a
  decimal beginning with \<open>0.\<close>, and the string matches as a whole.
\<close>

definition spec_alpha :: "string \<Rightarrow> bool" where
  "spec_alpha x = (x = ''1'' \<or> x = ''0'' \<or> (take 2 x = ''0.'' \<and> list_all isDigit (drop 2 x)))"

definition spec_grammar :: "string \<Rightarrow> bool" where
  "spec_grammar t =
     (\<exists>a n1 n2 n3 al.
        unsigned n1 \<and> unsigned n2 \<and> unsigned n3 \<and>
        (case al of None \<Rightarrow> True | Some x \<Rightarrow> spec_alpha x) \<and>
        t = rgbaText a n1 n2 n3 al)"

section \<open>Luminance of a triple\<close>

declare decimal.simps [simp del]

lemmas char_defs = isDigit_def code_def isHex_def hexValue_def isWhiteSpace_def digitValue_def

lemma assertRgbColor_triple:
  "0 \<le> r \<Longrightarrow> r \<le> 255 \<Longrightarrow> 0 \<le> g \<Longrightarrow> g \<le> 255 \<Longrightarrow> 0 \<le> b \<Longrightarrow> b \<le> 255 \<Longrightarrow>
   assertRgbColor [Fin r, Fin g, Fin b] = None"
  by (simp add: assertRgbColor_def)

lemma linear_channel:
  "0 \<le> c \<Longrightarrow>
   (if num_gt (num_div (Fin c) (Fin 255)) (Fin 0.03928)
    then num_pow (num_div (num_add (num_div (Fin c) (Fin 255)) (Fin 0.055)) (Fin 1.055))
           (Fin 2.4)
    else num_div (num_div (Fin c) (Fin 255)) (Fin 12.92)) = Fin (spec_linear (c / 255))"
  by (simp add: spec_linear_def)

lemma arrayLuminance_triple:
  assumes "0 \<le> r" "r \<le> 255" "0 \<le> g" "g \<le> 255" "0 \<le> b" "b \<le> 255"
  shows "arrayLuminance [Fin r, Fin g, Fin b] = Inr (Fin (spec_luminance r g b))"
proof -
  have "componentsToLuminance (num_div (Fin r) (Fin 255)) (num_div (Fin g) (Fin 255))
          (num_div (Fin b) (Fin 255)) = Fin (spec_luminance r g b)"
    unfolding componentsToLuminance_def Let_def
    using assms by (simp only: linear_channel) (simp add: spec_luminance_def)
  then show ?thesis
    using assms by (simp add: arrayLuminance_def assertRgbColor_triple)
qed

text \<open>
  C1. For an array of three numbers between 0 and 255, \<open>colorLuminance\<close> returns the
  weighted sum of the specification over the linearised channels, and leaves the cache
  as it was.
\<close>

theorem luminance_is_weighted_sum:
  assumes "0 \<le> r" "r \<le> 255" "0 \<le> g" "g \<le> 255" "0 \<le> b" "b \<le> 255"
  shows "colorLuminance (Arr [Fin r, Fin g, Fin b]) cache CACHE =
           (Inr (Number (Fin (spec_luminance r g b))), CACHE)"
  using assms by (simp add: colorLuminance_def arrayLuminance_triple)

theorem luminance_is_weighted_sum_witness:
  "colorLuminance (Arr [Fin 255, Fin 0, Fin 0]) True Map.empty =
     (Inr (Number (Fin 0.2126)), Map.empty)"
  using luminance_is_weighted_sum [of 255 0 0 True Map.empty]
  by (simp add: spec_luminance_def spec_linear_def)

text \<open>
  C6. The luminance of black \<open>[0, 0, 0]\<close> is 0 and the luminance of white
  \<open>[255, 255, 255]\<close> is 1.
\<close>

theorem black_and_white:
  "colorLuminance (Arr [Fin 0, Fin 0, Fin 0]) cache CACHE = (Inr (Number (Fin 0)), CACHE) \<and>
   colorLuminance (Arr [Fin 255, Fin 255, Fin 255]) cache CACHE =
     (Inr (Number (Fin 1)), CACHE)"
  by (simp add: colorLuminance_def arrayLuminance_def assertRgbColor_def
        componentsToLuminance_def)

text \<open>
  C9. \<open>#zzz\<close> and \<open>#zzzzzz\<close> raise no error and give \<open>NaN\<close>: \<open>hexToByte\<close> of two characters
  that are not hexadecimal digits is \<open>NaN\<close>, the range check of \<open>assertRgbColor\<close> lets
  \<open>NaN\<close> components pass, and the \<open>NaN\<close> computed from them is returned and stored.
\<close>

theorem not_hex_gives_NaN:
  "hexToByte ''zz'' = NaN \<and>
   assertRgbColor [NaN, NaN, NaN] = None \<and>
   colorLuminance (Str ''#zzz'') True Map.empty =
     (Inr (Number NaN), [''#zzz'' \<mapsto> NaN]) \<and>
   colorLuminance (Str ''#zzzzzz'') True Map.empty =
     (Inr (Number NaN), [''#zzzzzz'' \<mapsto> NaN])"
  by (simp add: colorLuminance_def arrayLuminance_def assertRgbColor_def
        componentsToLuminance_def hexToByte_def parseInt16_def char_defs lookup_def
        Object_prototype_def assign_def slice_def)

section \<open>Hit and miss\<close>

declare match.simps [simp del]

lemma colorLuminance_uncached:
  "colorLuminance (Str s) False C =
     (case components s of Inl e \<Rightarrow> (Inl e, C) | Inr rgb \<Rightarrow> assign s rgb C)"
  unfolding colorLuminance_def components_def Let_def
  by (simp split: option.splits)

lemma colorLuminance_falsy:
  "\<not> truthy (lookup C s) \<Longrightarrow>
   colorLuminance (Str s) cache C =
     (case components s of Inl e \<Rightarrow> (Inl e, C) | Inr rgb \<Rightarrow> assign s rgb C)"
  unfolding colorLuminance_def components_def Let_def
  by (simp split: option.splits)

lemma colorLuminance_miss:
  "\<not> (cache \<and> truthy (lookup C s)) \<Longrightarrow>
   colorLuminance (Str s) cache C =
     (case components s of Inl e \<Rightarrow> (Inl e, C) | Inr rgb \<Rightarrow> assign s rgb C)"
  by (cases cache) (simp_all add: colorLuminance_uncached colorLuminance_falsy)

lemma colorLuminance_Str:
  "colorLuminance (Str s) cache C =
     (if cache \<and> truthy (lookup C s) then (Inr (the (lookup C s)), C)
      else (case fresh s of
              Inl e \<Rightarrow> (Inl e, C)
            | Inr l \<Rightarrow> (Inr (Number l), C(s \<mapsto> l))))"
proof (cases "cache \<and> truthy (lookup C s)")
  case True
  then show ?thesis by (simp add: colorLuminance_def)
next
  case False
  then show ?thesis
    by (simp only: colorLuminance_miss [OF False] fresh_def assign_def if_False
          split: sum.splits) simp
qed

lemma colorLuminance_Arr:
  "colorLuminance (Arr a) cache C =
     (case arrayLuminance a of Inl e \<Rightarrow> (Inl e, C) | Inr l \<Rightarrow> (Inr (Number l), C))"
  by (simp add: colorLuminance_def)

lemma truthy_lookup:
  "truthy (lookup C s) \<Longrightarrow>
     (\<exists>l. C s = Some l \<and> lookup C s = Some (Number l)) \<or>
     (C s = None \<and> s \<in> set Object_prototype \<and> lookup C s = Some (Inherited s))"
  by (auto simp: lookup_def split: option.splits if_splits)

lemma consistent_step:
  assumes "consistent C"
  shows "consistent (snd (colorLuminance color cache C))"
proof (cases color)
  case (Arr a)
  with assms show ?thesis
    by (simp add: colorLuminance_Arr split: sum.splits)
next
  case (Str s)
  show ?thesis
  proof (cases "fresh s")
    case (Inl e)
    with assms Str show ?thesis by (simp add: colorLuminance_Str)
  next
    case (Inr l)
    with assms Str show ?thesis by (simp add: colorLuminance_Str consistent_def)
  qed
qed

lemma reachable_consistent: "reachable C \<Longrightarrow> consistent C"
  by (induction rule: reachable.induct) (simp_all add: consistent_step, simp add: consistent_def)

section \<open>What the pattern matches\<close>

declare run.simps(6) [simp del]

lemma in_run_Lit: "(s', c') \<in> set (run (Lit x) (s, c)) \<longleftrightarrow> s = x # s' \<and> c' = c"
  by (cases s) auto

lemma in_run_Digit:
  "(s', c') \<in> set (run Digit (s, c)) \<longleftrightarrow> (\<exists>y. isDigit y \<and> s = y # s') \<and> c' = c"
  by (cases s) auto

lemma in_run_Seq:
  "x \<in> set (run (Seq a b) (s, c)) \<longleftrightarrow> (\<exists>y \<in> set (run a (s, c)). x \<in> set (run b y))"
  by auto

lemma in_run_Alt:
  "x \<in> set (run (Alt a b) (s, c)) \<longleftrightarrow> x \<in> set (run a (s, c)) \<or> x \<in> set (run b (s, c))"
  by auto

lemma in_run_Opt:
  "x \<in> set (run (Opt a) (s, c)) \<longleftrightarrow> x \<in> set (run a (s, c)) \<or> x = (s, c)"
  by auto

lemma in_run_Group:
  "(s', c') \<in> set (run (Group i a) (s, c)) \<longleftrightarrow>
     (\<exists>c''. (s', c'') \<in> set (run a (s, c)) \<and>
            c' = c''(i \<mapsto> take (length s - length s') s))"
  by (auto simp: image_iff) force

lemma in_run_Star_Digit:
  "(s', c') \<in> set (run (Star Digit) (s, c)) \<longleftrightarrow>
     c' = c \<and> (\<exists>ds. list_all isDigit ds \<and> s = ds @ s')"
proof (induction s)
  case Nil
  show ?case by (simp add: run.simps(6)) auto
next
  case (Cons y t)
  show ?case
  proof (cases "isDigit y")
    case True
    have "(s', c') \<in> set (run (Star Digit) (y # t, c)) \<longleftrightarrow>
            (s', c') \<in> set (run (Star Digit) (t, c)) \<or> (s', c') = (y # t, c)"
      using True by (auto simp: run.simps(6) [of Digit "y # t"])
    also have "\<dots> \<longleftrightarrow> c' = c \<and> (\<exists>ds. list_all isDigit ds \<and> y # t = ds @ s')"
    proof
      assume "(s', c') \<in> set (run (Star Digit) (t, c)) \<or> (s', c') = (y # t, c)"
      then show "c' = c \<and> (\<exists>ds. list_all isDigit ds \<and> y # t = ds @ s')"
      proof
        assume "(s', c') \<in> set (run (Star Digit) (t, c))"
        then obtain ds where "c' = c" "list_all isDigit ds" "t = ds @ s'"
          using Cons.IH by auto
        then have "list_all isDigit (y # ds) \<and> y # t = (y # ds) @ s'"
          using True by simp
        then show ?thesis using \<open>c' = c\<close> by blast
      next
        assume "(s', c') = (y # t, c)"
        then have "list_all isDigit [] \<and> y # t = [] @ s'" by simp
        then show ?thesis using \<open>(s', c') = (y # t, c)\<close> by blast
      qed
    next
      assume r: "c' = c \<and> (\<exists>ds. list_all isDigit ds \<and> y # t = ds @ s')"
      then obtain ds where ds: "list_all isDigit ds" "y # t = ds @ s'" by auto
      show "(s', c') \<in> set (run (Star Digit) (t, c)) \<or> (s', c') = (y # t, c)"
      proof (cases ds)
        case Nil
        with ds r show ?thesis by simp
      next
        case (Cons z zs)
        with ds have "list_all isDigit zs" "t = zs @ s'" by auto
        with r Cons.IH show ?thesis by auto
      qed
    qed
    finally show ?thesis .
  next
    case False
    have "(s', c') \<in> set (run (Star Digit) (y # t, c)) \<longleftrightarrow> (s', c') = (y # t, c)"
      using False by (simp add: run.simps(6) [of Digit "y # t"])
    also have "\<dots> \<longleftrightarrow> c' = c \<and> (\<exists>ds. list_all isDigit ds \<and> y # t = ds @ s')"
    proof
      assume "(s', c') = (y # t, c)"
      then have "list_all isDigit [] \<and> y # t = [] @ s'" by simp
      then show "c' = c \<and> (\<exists>ds. list_all isDigit ds \<and> y # t = ds @ s')"
        using \<open>(s', c') = (y # t, c)\<close> by blast
    next
      assume r: "c' = c \<and> (\<exists>ds. list_all isDigit ds \<and> y # t = ds @ s')"
      then obtain ds where ds: "list_all isDigit ds" "y # t = ds @ s'" by auto
      have "ds = []"
      proof (cases ds)
        case (Cons z zs)
        with ds False show ?thesis by simp
      qed simp
      with ds r show "(s', c') = (y # t, c)" by simp
    qed
    finally show ?thesis .
  qed
qed

lemma in_run_Plus_Digit:
  "(s', c') \<in> set (run (Plus Digit) (s, c)) \<longleftrightarrow> c' = c \<and> (\<exists>n. unsigned n \<and> s = n @ s')"
proof -
  have "(s', c') \<in> set (run (Plus Digit) (s, c)) \<longleftrightarrow>
          (\<exists>y t. isDigit y \<and> s = y # t \<and> (s', c') \<in> set (run (Star Digit) (t, c)))"
    unfolding Plus_def in_run_Seq by (cases s) auto
  also have "\<dots> \<longleftrightarrow> c' = c \<and> (\<exists>n. unsigned n \<and> s = n @ s')"
  proof
    assume "\<exists>y t. isDigit y \<and> s = y # t \<and> (s', c') \<in> set (run (Star Digit) (t, c))"
    then obtain y t ds where "isDigit y" "s = y # t" "c' = c" "list_all isDigit ds" "t = ds @ s'"
      unfolding in_run_Star_Digit by auto
    then have "unsigned (y # ds) \<and> s = (y # ds) @ s'" by (simp add: unsigned_def)
    then show "c' = c \<and> (\<exists>n. unsigned n \<and> s = n @ s')" using \<open>c' = c\<close> by blast
  next
    assume r: "c' = c \<and> (\<exists>n. unsigned n \<and> s = n @ s')"
    then obtain n where n: "unsigned n" "s = n @ s'" by auto
    then obtain y ds where "n = y # ds" by (cases n) (auto simp: unsigned_def)
    with n r have "isDigit y \<and> s = y # (ds @ s') \<and> (s', c') \<in> set (run (Star Digit) (ds @ s', c))"
      unfolding in_run_Star_Digit by (auto simp: unsigned_def)
    then show "\<exists>y t. isDigit y \<and> s = y # t \<and> (s', c') \<in> set (run (Star Digit) (t, c))"
      by blast
  qed
  finally show ?thesis .
qed

lemma in_run_number:
  "(s', c') \<in> set (run (Group i (Plus Digit)) (s, c)) \<longleftrightarrow>
     (\<exists>n. unsigned n \<and> s = n @ s' \<and> c' = c(i \<mapsto> n))"
  unfolding in_run_Group in_run_Plus_Digit by auto

declare run.simps [simp del]

lemma in_run_Seq_pair:
  "(s', c') \<in> set (run (Seq a b) (s, c)) \<longleftrightarrow>
     (\<exists>s1 c1. (s1, c1) \<in> set (run a (s, c)) \<and> (s', c') \<in> set (run b (s1, c1)))"
  unfolding in_run_Seq by auto

lemma alphaForm_iff:
  "alphaForm x \<longleftrightarrow>
     x = ''1'' \<or> x = ''0'' \<or>
     (\<exists>ds. list_all isDigit ds \<and> (x = CHR ''.'' # ds \<or> x = CHR ''0'' # CHR ''.'' # ds))"
proof (cases x)
  case Nil
  then show ?thesis by (simp add: alphaForm_def)
next
  case (Cons y t)
  show ?thesis
  proof (cases t)
    case Nil
    with Cons show ?thesis by (auto simp: alphaForm_def)
  next
    case (Cons z u)
    with \<open>x = y # t\<close> show ?thesis by (auto simp: alphaForm_def)
  qed
qed

lemma in_run_Seq_Lit:
  "(s', c') \<in> set (run (Seq (Lit x) b) (s, c)) \<longleftrightarrow>
     (\<exists>t. s = x # t \<and> (s', c') \<in> set (run b (t, c)))"
  unfolding in_run_Seq_pair in_run_Lit by auto

lemma in_run_Seq_Opt_Lit:
  "(s', c') \<in> set (run (Seq (Opt (Lit x)) b) (s, c)) \<longleftrightarrow>
     (\<exists>t. s = x # t \<and> (s', c') \<in> set (run b (t, c))) \<or> (s', c') \<in> set (run b (s, c))"
  unfolding in_run_Seq_pair in_run_Opt in_run_Lit by auto

lemma in_run_Seq_number:
  "(s', c') \<in> set (run (Seq (Group i (Plus Digit)) b) (s, c)) \<longleftrightarrow>
     (\<exists>n t. unsigned n \<and> s = n @ t \<and> (s', c') \<in> set (run b (t, c(i \<mapsto> n))))"
  unfolding in_run_Seq_pair in_run_number by blast

lemma in_run_ALPHA:
  "(s', c') \<in> set (run ALPHA (s, c)) \<longleftrightarrow> c' = c \<and> (\<exists>x. alphaForm x \<and> s = x @ s')"
  (is "?L \<longleftrightarrow> ?R")
proof -
  have "?L \<longleftrightarrow>
          (s = CHR ''1'' # s' \<and> c' = c) \<or> (s = CHR ''0'' # s' \<and> c' = c) \<or>
          (\<exists>t. s = CHR ''0'' # t \<and> (\<exists>u. t = CHR ''.'' # u \<and> c' = c \<and>
                 (\<exists>ds. list_all isDigit ds \<and> u = ds @ s'))) \<or>
          (\<exists>u. s = CHR ''.'' # u \<and> c' = c \<and> (\<exists>ds. list_all isDigit ds \<and> u = ds @ s'))"
    unfolding ALPHA_def seqs.simps in_run_Alt in_run_Seq_Opt_Lit in_run_Seq_Lit in_run_Lit
      in_run_Star_Digit
    by (rule refl)
  also have "\<dots> \<longleftrightarrow> ?R"
  proof
    assume "(s = CHR ''1'' # s' \<and> c' = c) \<or> (s = CHR ''0'' # s' \<and> c' = c) \<or>
          (\<exists>t. s = CHR ''0'' # t \<and> (\<exists>u. t = CHR ''.'' # u \<and> c' = c \<and>
                 (\<exists>ds. list_all isDigit ds \<and> u = ds @ s'))) \<or>
          (\<exists>u. s = CHR ''.'' # u \<and> c' = c \<and> (\<exists>ds. list_all isDigit ds \<and> u = ds @ s'))"
    then consider "s = ''1'' @ s'" "c' = c" | "s = ''0'' @ s'" "c' = c"
      | ds where "list_all isDigit ds" "s = (CHR ''0'' # CHR ''.'' # ds) @ s'" "c' = c"
      | ds where "list_all isDigit ds" "s = (CHR ''.'' # ds) @ s'" "c' = c"
      by auto
    then show ?R
    proof cases
      case 1
      have "alphaForm ''1''" by (simp add: alphaForm_iff)
      with 1 show ?thesis by blast
    next
      case 2
      have "alphaForm ''0''" by (simp add: alphaForm_iff)
      with 2 show ?thesis by blast
    next
      case 3
      then have "alphaForm (CHR ''0'' # CHR ''.'' # ds)" by (simp add: alphaForm_iff)
      with 3 show ?thesis by blast
    next
      case 4
      then have "alphaForm (CHR ''.'' # ds)" by (simp add: alphaForm_iff)
      with 4 show ?thesis by blast
    qed
  next
    assume ?R
    then obtain x where "c' = c" "alphaForm x" "s = x @ s'" by blast
    then show "(s = CHR ''1'' # s' \<and> c' = c) \<or> (s = CHR ''0'' # s' \<and> c' = c) \<or>
          (\<exists>t. s = CHR ''0'' # t \<and> (\<exists>u. t = CHR ''.'' # u \<and> c' = c \<and>
                 (\<exists>ds. list_all isDigit ds \<and> u = ds @ s'))) \<or>
          (\<exists>u. s = CHR ''.'' # u \<and> c' = c \<and> (\<exists>ds. list_all isDigit ds \<and> u = ds @ s'))"
      unfolding alphaForm_iff by auto
  qed
  finally show ?thesis .
qed

lemma in_run_Group_ALPHA:
  "(s', c') \<in> set (run (Group 4 ALPHA) (s, c)) \<longleftrightarrow>
     (\<exists>x. alphaForm x \<and> s = x @ s' \<and> c' = c(4 \<mapsto> x))"
  unfolding in_run_Group in_run_ALPHA by auto

lemma in_run_TAIL:
  "(s', c') \<in> set (run TAIL (s, c)) \<longleftrightarrow>
     (\<exists>al. (case al of None \<Rightarrow> True | Some x \<Rightarrow> alphaForm x) \<and>
           s = (case al of None \<Rightarrow> [] | Some x \<Rightarrow> CHR '','' # x) @ CHR '')'' # s' \<and>
           c' = (case al of None \<Rightarrow> c | Some x \<Rightarrow> c(4 \<mapsto> x)))"
  (is "?L \<longleftrightarrow> ?R")
proof
  assume ?L
  then consider
      (some) x where "alphaForm x" "s = CHR '','' # x @ CHR '')'' # s'" "c' = c(4 \<mapsto> x)"
    | (none) "s = CHR '')'' # s'" "c' = c"
    unfolding TAIL_def seqs.simps in_run_Seq_pair in_run_Opt in_run_Lit in_run_Group_ALPHA
    by auto
  then show ?R
  proof cases
    case some
    then show ?thesis by (intro exI [of _ "Some x"]) simp
  next
    case none
    then show ?thesis by (intro exI [of _ None]) simp
  qed
next
  assume ?R
  then obtain al where al: "case al of None \<Rightarrow> True | Some x \<Rightarrow> alphaForm x"
    "s = (case al of None \<Rightarrow> [] | Some x \<Rightarrow> CHR '','' # x) @ CHR '')'' # s'"
    "c' = (case al of None \<Rightarrow> c | Some x \<Rightarrow> c(4 \<mapsto> x))" by blast
  show ?L
  proof (cases al)
    case None
    with al show ?thesis
      unfolding TAIL_def seqs.simps in_run_Seq_pair in_run_Opt in_run_Lit in_run_Group_ALPHA
      by auto
  next
    case (Some x)
    with al show ?thesis
      unfolding TAIL_def seqs.simps in_run_Seq_pair in_run_Opt in_run_Lit in_run_Group_ALPHA
      by auto
  qed
qed

lemma RGBA_PATTERN_parts:
  "RGBA_PATTERN =
     Seq (Lit CHR ''r'') (Seq (Lit CHR ''g'') (Seq (Lit CHR ''b'') (Seq (Opt (Lit CHR ''a''))
    (Seq (Lit CHR ''('')
    (Seq (Group 1 (Plus Digit)) (Seq (Lit CHR '','')
    (Seq (Group 2 (Plus Digit)) (Seq (Lit CHR '','')
    (Seq (Group 3 (Plus Digit)) TAIL)))))))))"
  by (simp add: RGBA_PATTERN_def TAIL_def ALPHA_def)

lemma in_run_RGBA:
  "(s', c') \<in> set (run RGBA_PATTERN (s, c)) \<longleftrightarrow>
     (\<exists>a n1 n2 n3 al. wellFormed n1 n2 n3 al \<and> s = rgbaText a n1 n2 n3 al @ s' \<and>
                      c' = captured c n1 n2 n3 al)"
  (is "?L \<longleftrightarrow> ?R")
proof
  assume ?L
  then have "\<exists>n1 n2 n3 al.
        (s = ''rgba('' @ n1 @ '','' @ n2 @ '','' @ n3 @
             (case al of None \<Rightarrow> [] | Some x \<Rightarrow> CHR '','' # x) @ '')'' @ s' \<or>
         s = ''rgb('' @ n1 @ '','' @ n2 @ '','' @ n3 @
             (case al of None \<Rightarrow> [] | Some x \<Rightarrow> CHR '','' # x) @ '')'' @ s') \<and>
        unsigned n1 \<and> unsigned n2 \<and> unsigned n3 \<and>
        (case al of None \<Rightarrow> True | Some x \<Rightarrow> alphaForm x) \<and>
        c' = (case al of None \<Rightarrow> c(1 \<mapsto> n1, 2 \<mapsto> n2, 3 \<mapsto> n3)
                    | Some x \<Rightarrow> c(1 \<mapsto> n1, 2 \<mapsto> n2, 3 \<mapsto> n3, 4 \<mapsto> x))"
    unfolding RGBA_PATTERN_parts in_run_Seq_Lit in_run_Seq_Opt_Lit in_run_Seq_number in_run_TAIL
    by (elim exE conjE disjE; hypsubst; simp; blast)
  then obtain n1 n2 n3 al where
        "s = rgbaText True n1 n2 n3 al @ s' \<or> s = rgbaText False n1 n2 n3 al @ s'"
      and w: "unsigned n1" "unsigned n2" "unsigned n3"
        "case al of None \<Rightarrow> True | Some x \<Rightarrow> alphaForm x"
      and c: "c' = (case al of None \<Rightarrow> c(1 \<mapsto> n1, 2 \<mapsto> n2, 3 \<mapsto> n3)
                    | Some x \<Rightarrow> c(1 \<mapsto> n1, 2 \<mapsto> n2, 3 \<mapsto> n3, 4 \<mapsto> x))"
    unfolding rgbaText_def by auto
  with w c show ?R
    unfolding wellFormed_def captured_def by blast
next
  assume ?R
  then obtain a n1 n2 n3 al where w: "wellFormed n1 n2 n3 al"
    and s: "s = rgbaText a n1 n2 n3 al @ s'" and c: "c' = captured c n1 n2 n3 al"
    by blast
  let ?t = "(case al of None \<Rightarrow> [] | Some x \<Rightarrow> CHR '','' # x) @ CHR '')'' # s'"
  have t: "(s', c') \<in> set (run TAIL (?t, c(1 \<mapsto> n1, 2 \<mapsto> n2, 3 \<mapsto> n3)))"
    unfolding in_run_TAIL using w c
    by (intro exI [of _ al]) (simp add: wellFormed_def captured_def split: option.splits)
  from w have u: "unsigned n1" "unsigned n2" "unsigned n3" by (simp_all add: wellFormed_def)
  have 3: "(s', c') \<in> set (run (Seq (Group 3 (Plus Digit)) TAIL)
               (n3 @ ?t, c(1 \<mapsto> n1, 2 \<mapsto> n2)))"
    unfolding in_run_Seq_number using u t by blast
  have 2: "(s', c') \<in> set (run (Seq (Group 2 (Plus Digit)) (Seq (Lit CHR '','')
               (Seq (Group 3 (Plus Digit)) TAIL))) (n2 @ CHR '','' # n3 @ ?t, c(1 \<mapsto> n1)))"
    unfolding in_run_Seq_number [where i = 2] in_run_Seq_Lit using u 3 by blast
  have 1: "(s', c') \<in> set (run (Seq (Group 1 (Plus Digit)) (Seq (Lit CHR '','')
              (Seq (Group 2 (Plus Digit)) (Seq (Lit CHR '','')
               (Seq (Group 3 (Plus Digit)) TAIL)))))
               (n1 @ CHR '','' # n2 @ CHR '','' # n3 @ ?t, c))"
    unfolding in_run_Seq_number [where i = 1] in_run_Seq_Lit using u 2 by blast
  show ?L
    unfolding RGBA_PATTERN_parts in_run_Seq_Lit in_run_Seq_Opt_Lit
    using 1 s by (cases a) (simp_all add: rgbaText_def)
qed

section \<open>One reading for each match\<close>

lemma run_until:
  "list_all P n \<Longrightarrow> list_all P m \<Longrightarrow> \<not> P x \<Longrightarrow> \<not> P y \<Longrightarrow> n @ x # r = m @ y # r' \<Longrightarrow>
   n = m \<and> x = y \<and> r = r'"
proof (induction n arbitrary: m)
  case Nil
  then show ?case by (cases m) auto
next
  case (Cons z n)
  then show ?case by (cases m) auto
qed

lemma comma_not_digit: "\<not> isDigit CHR '',''" and paren_not_digit: "\<not> isDigit CHR '')''"
  by (simp_all add: char_defs)

lemma digits_no_paren: "list_all isDigit ds \<Longrightarrow> list_all (\<lambda>y. y \<noteq> CHR '')'') ds"
  by (induction ds) (auto simp: char_defs)

lemma alphaForm_no_paren: "alphaForm x \<Longrightarrow> list_all (\<lambda>y. y \<noteq> CHR '')'') x"
  unfolding alphaForm_iff by (auto simp: digits_no_paren)

lemma alphaForm_not_empty: "alphaForm x \<Longrightarrow> x \<noteq> []"
  unfolding alphaForm_iff by auto

lemma rgbaText_inject:
  assumes n: "wellFormed n1 n2 n3 al" and m: "wellFormed m1 m2 m3 bl"
    and eq: "rgbaText a n1 n2 n3 al @ s = rgbaText b m1 m2 m3 bl @ t"
  shows "a = b \<and> n1 = m1 \<and> n2 = m2 \<and> n3 = m3 \<and> al = bl \<and> s = t"
proof -
  let ?tail = "\<lambda>al s. (case al of None \<Rightarrow> [] | Some x \<Rightarrow> CHR '','' # x) @ CHR '')'' # s"
  let ?num = "\<lambda>n1 n2 n3 al s. n1 @ CHR '','' # n2 @ CHR '','' # n3 @ ?tail al s"
  from n m have d: "list_all isDigit n1" "list_all isDigit n2" "list_all isDigit n3"
    "list_all isDigit m1" "list_all isDigit m2" "list_all isDigit m3"
    by (simp_all add: wellFormed_def unsigned_def)
  from n m have ne: "n1 \<noteq> []" "m1 \<noteq> []" "n3 \<noteq> []" "m3 \<noteq> []"
    by (simp_all add: wellFormed_def unsigned_def)
  have paren: "\<not> isDigit CHR ''(''" by (simp add: char_defs)
  have ab: "a = b"
  proof (rule ccontr)
    assume "a \<noteq> b"
    then consider "a" "\<not> b" | "\<not> a" "b" by blast
    then show False using eq by cases (simp_all add: rgbaText_def)
  qed
  with eq have 1: "?num n1 n2 n3 al s = ?num m1 m2 m3 bl t"
    by (cases b) (simp_all add: rgbaText_def)
  from run_until [OF d(1) d(4) comma_not_digit comma_not_digit 1]
  have n1: "n1 = m1" and 2: "n2 @ CHR '','' # n3 @ ?tail al s = m2 @ CHR '','' # m3 @ ?tail bl t"
    by simp_all
  from run_until [OF d(2) d(5) comma_not_digit comma_not_digit 2]
  have n2: "n2 = m2" and 3: "n3 @ ?tail al s = m3 @ ?tail bl t"
    by simp_all
  obtain x r where x: "?tail al s = x # r" "\<not> isDigit x"
    by (cases al) (simp_all add: comma_not_digit paren_not_digit)
  obtain y r' where y: "?tail bl t = y # r'" "\<not> isDigit y"
    by (cases bl) (simp_all add: comma_not_digit paren_not_digit)
  from 3 have "n3 @ x # r = m3 @ y # r'" by (simp only: x y)
  from run_until [OF d(3) d(6) x(2) y(2) this] x y
  have n3: "n3 = m3" and 4: "?tail al s = ?tail bl t" by simp_all
  have "al = bl \<and> s = t"
  proof (cases al)
    case None
    with 4 show ?thesis by (cases bl) simp_all
  next
    case (Some u)
    with 4 obtain v where v: "bl = Some v" by (cases bl) simp_all
    from n m Some v have "list_all (\<lambda>y. y \<noteq> CHR '')'') u" "list_all (\<lambda>y. y \<noteq> CHR '')'') v"
      by (simp_all add: wellFormed_def alphaForm_no_paren)
    moreover from 4 Some v have "u @ CHR '')'' # s = v @ CHR '')'' # t" by simp
    ultimately have "u = v \<and> s = t"
      using run_until [of "\<lambda>y. y \<noteq> CHR '')''" u v "CHR '')''" "CHR '')''" s t] by simp
    with Some v show ?thesis by simp
  qed
  with ab n1 n2 n3 show ?thesis by simp
qed

section \<open>The first match\<close>

lemma match_first: "run r (s, \<lambda>i. None) = st # rest \<Longrightarrow> match r s = Some (snd st)"
  by (simp add: match.simps)

lemma match_None_iff:
  "match r s = None \<longleftrightarrow> (\<forall>i \<le> length s. run r (drop i s, \<lambda>i. None) = [])"
proof (induction s)
  case Nil
  show ?case by (simp add: match.simps split: list.splits)
next
  case (Cons x s)
  have "(\<forall>i \<le> length (x # s). run r (drop i (x # s), \<lambda>i. None) = []) \<longleftrightarrow>
          run r (x # s, \<lambda>i. None) = [] \<and> (\<forall>i \<le> length s. run r (drop i s, \<lambda>i. None) = [])"
    (is "?A \<longleftrightarrow> ?B")
  proof
    assume a: ?A
    have "run r (drop 0 (x # s), \<lambda>i. None) = []" using a by blast
    moreover have "run r (drop i s, \<lambda>i. None) = []" if "i \<le> length s" for i
      using a [rule_format, of "Suc i"] that by simp
    ultimately show ?B by simp
  next
    assume b: ?B
    show ?A
    proof (intro allI impI)
      fix i assume "i \<le> length (x # s)"
      with b show "run r (drop i (x # s), \<lambda>i. None) = []" by (cases i) simp_all
    qed
  qed
  with Cons.IH show ?case
    by (simp add: match.simps [of r "x # s"] split: list.splits)
qed

lemma match_Some_from:
  "match r s = Some c' \<Longrightarrow>
   \<exists>i \<le> length s. \<exists>s'. (s', c') \<in> set (run r (drop i s, \<lambda>i. None))"
proof (induction s)
  case Nil
  then obtain st rest where "run r ([], \<lambda>i. None) = st # rest" "c' = snd st"
    by (auto simp: match.simps split: list.splits)
  then have "(fst st, c') \<in> set (run r (drop 0 [], \<lambda>i. None))" by simp
  then show ?case by blast
next
  case (Cons x s)
  show ?case
  proof (cases "run r (x # s, \<lambda>i. None)")
    case Nil
    with Cons.prems have "match r s = Some c'" by (simp add: match.simps [of r "x # s"])
    from Cons.IH [OF this] obtain i s' where
      "i \<le> length s" "(s', c') \<in> set (run r (drop i s, \<lambda>i. None))" by blast
    then have "Suc i \<le> length (x # s) \<and>
               (s', c') \<in> set (run r (drop (Suc i) (x # s), \<lambda>i. None))" by simp
    then show ?thesis by blast
  next
    case (Cons st rest)
    with Cons.prems have "c' = snd st" by (simp add: match.simps [of r "x # s"])
    with Cons have "(fst st, c') \<in> set (run r (drop 0 (x # s), \<lambda>i. None))" by simp
    then show ?thesis by blast
  qed
qed

lemma match_rgba:
  assumes "wellFormed n1 n2 n3 al"
  shows "match RGBA_PATTERN (rgbaText a n1 n2 n3 al @ post) =
           Some (captured (\<lambda>i. None) n1 n2 n3 al)"
proof -
  let ?s = "rgbaText a n1 n2 n3 al @ post"
  have "(post, captured (\<lambda>i. None) n1 n2 n3 al) \<in> set (run RGBA_PATTERN (?s, \<lambda>i. None))"
    unfolding in_run_RGBA using assms by blast
  then obtain st rest where st: "run RGBA_PATTERN (?s, \<lambda>i. None) = st # rest"
    by (cases "run RGBA_PATTERN (?s, \<lambda>i. None)") auto
  then have "(fst st, snd st) \<in> set (run RGBA_PATTERN (?s, \<lambda>i. None))" by simp
  then obtain b m1 m2 m3 bl where m: "wellFormed m1 m2 m3 bl"
    "?s = rgbaText b m1 m2 m3 bl @ fst st" "snd st = captured (\<lambda>i. None) m1 m2 m3 bl"
    unfolding in_run_RGBA by blast
  from rgbaText_inject [OF assms m(1) m(2)] m(3)
  have "snd st = captured (\<lambda>i. None) n1 n2 n3 al" by simp
  with match_first [OF st] show ?thesis by simp
qed

lemma match_rgba_None: "match RGBA_PATTERN t = None \<longleftrightarrow> \<not> occurs t"
proof
  assume none: "match RGBA_PATTERN t = None"
  show "\<not> occurs t"
  proof
    assume "occurs t"
    then obtain pre post a n1 n2 n3 al where w: "wellFormed n1 n2 n3 al"
      and t: "t = pre @ rgbaText a n1 n2 n3 al @ post"
      unfolding occurs_def by blast
    have "(post, captured (\<lambda>i. None) n1 n2 n3 al) \<in>
            set (run RGBA_PATTERN (rgbaText a n1 n2 n3 al @ post, \<lambda>i. None))"
      unfolding in_run_RGBA using w by blast
    moreover have "length pre \<le> length t" using t by simp
    with none have "run RGBA_PATTERN (drop (length pre) t, \<lambda>i. None) = []"
      unfolding match_None_iff by blast
    ultimately show False using t by simp
  qed
next
  assume no: "\<not> occurs t"
  show "match RGBA_PATTERN t = None"
  proof (rule ccontr)
    assume "match RGBA_PATTERN t \<noteq> None"
    then obtain c' where "match RGBA_PATTERN t = Some c'" by auto
    from match_Some_from [OF this] obtain i s' where
      "(s', c') \<in> set (run RGBA_PATTERN (drop i t, \<lambda>i. None))" by blast
    then obtain a n1 n2 n3 al where "wellFormed n1 n2 n3 al"
      "drop i t = rgbaText a n1 n2 n3 al @ s'"
      unfolding in_run_RGBA by blast
    then have "wellFormed n1 n2 n3 al \<and> t = take i t @ rgbaText a n1 n2 n3 al @ s'"
      by (metis append_take_drop_id)
    then have "occurs t" unfolding occurs_def by blast
    with no show False by simp
  qed
qed

text \<open>
  The letter \<open>r\<close> comes first in a match and nowhere else in it, so no match starts
  before another one and ends after its start: the first match in a string is the one
  with no match in what precedes it.
\<close>

lemma digits_no_r: "list_all isDigit ds \<Longrightarrow> CHR ''r'' \<notin> set ds"
  by (induction ds) (auto simp: char_defs)

lemma alphaForm_no_r: "alphaForm x \<Longrightarrow> CHR ''r'' \<notin> set x"
  unfolding alphaForm_iff by (auto dest: digits_no_r)

lemma rgbaText_tail_no_r:
  assumes "wellFormed n1 n2 n3 al"
  shows "CHR ''r'' \<notin> set (tl (rgbaText a n1 n2 n3 al))"
  using assms
  by (cases al) (auto simp: rgbaText_def wellFormed_def unsigned_def dest: digits_no_r alphaForm_no_r)

lemma run_RGBA_before_first:
  assumes no: "\<not> occurs pre" and i: "i < length pre" and w: "wellFormed n1 n2 n3 al"
  shows "run RGBA_PATTERN (drop i (pre @ rgbaText a n1 n2 n3 al @ post), c) = []"
proof (rule ccontr)
  let ?u = "drop i pre" and ?X = "rgbaText a n1 n2 n3 al @ post"
  assume "run RGBA_PATTERN (drop i (pre @ ?X), c) \<noteq> []"
  then obtain st where "(fst st, snd st) \<in> set (run RGBA_PATTERN (drop i (pre @ ?X), c))"
    by (cases "run RGBA_PATTERN (drop i (pre @ ?X), c)") auto
  then obtain b m1 m2 m3 bl where m: "wellFormed m1 m2 m3 bl"
    and eq: "drop i (pre @ ?X) = rgbaText b m1 m2 m3 bl @ fst st"
    unfolding in_run_RGBA by blast
  let ?f = "rgbaText b m1 m2 m3 bl"
  from i have u: "?u \<noteq> []" by simp
  from i eq have "?u @ ?X = ?f @ fst st" by simp
  then obtain us where "(?u = ?f @ us \<and> us @ ?X = fst st) \<or> (?u @ us = ?f \<and> ?X = us @ fst st)"
    unfolding append_eq_append_conv2 by blast
  then consider (inside) us where "?u = ?f @ us" | (across) us where "?u @ us = ?f" "?X = us @ fst st" "us \<noteq> []"
    by (cases "us = []") auto
  then show False
  proof cases
    case inside
    then have "wellFormed m1 m2 m3 bl \<and> pre = take i pre @ ?f @ us"
      using m by (metis append_take_drop_id)
    then have "occurs pre" unfolding occurs_def by blast
    with no show False by simp
  next
    case across
    from across(2,3) have "hd us = CHR ''r''" by (cases us) (simp_all add: rgbaText_def)
    with across(3) have "CHR ''r'' \<in> set us" by (cases us) auto
    moreover from u across(1) have "set us \<subseteq> set (tl ?f)"
      by (cases ?u) (auto simp: across(1) [symmetric])
    ultimately show False using rgbaText_tail_no_r [OF m, of b] by blast
  qed
qed

lemma match_drop:
  "(\<And>i. i < length pre \<Longrightarrow> run r (drop i (pre @ t), \<lambda>i. None) = []) \<Longrightarrow>
   match r (pre @ t) = match r t"
proof (induction pre)
  case Nil
  show ?case by simp
next
  case (Cons x pre)
  have 0: "run r (x # pre @ t, \<lambda>i. None) = []" using Cons.prems [of 0] by simp
  have "run r (drop i (pre @ t), \<lambda>i. None) = []" if "i < length pre" for i
    using Cons.prems [of "Suc i"] that by simp
  from Cons.IH [OF this] 0 show ?case
    by (simp add: match.simps [of r "x # pre @ t"])
qed

lemma match_rgba_first:
  assumes "wellFormed n1 n2 n3 al" "\<not> occurs pre"
  shows "match RGBA_PATTERN (pre @ rgbaText a n1 n2 n3 al @ post) =
           Some (captured (\<lambda>i. None) n1 n2 n3 al)"
proof -
  have "match RGBA_PATTERN (pre @ rgbaText a n1 n2 n3 al @ post) =
        match RGBA_PATTERN (rgbaText a n1 n2 n3 al @ post)"
    by (rule match_drop) (rule run_RGBA_before_first [OF assms(2) _ assms(1)])
  then show ?thesis by (simp only: match_rgba [OF assms(1)])
qed

lemma occurs_first:
  assumes "occurs t"
  shows "\<exists>pre a n1 n2 n3 al post.
           wellFormed n1 n2 n3 al \<and> \<not> occurs pre \<and> t = pre @ rgbaText a n1 n2 n3 al @ post"
proof -
  let ?P = "\<lambda>n. \<exists>pre a n1 n2 n3 al post.
           wellFormed n1 n2 n3 al \<and> length pre = n \<and> t = pre @ rgbaText a n1 n2 n3 al @ post"
  from assms have "\<exists>n. ?P n" unfolding occurs_def by blast
  then obtain n where n: "?P n" and least: "\<And>k. k < n \<Longrightarrow> \<not> ?P k"
    using exists_least_iff [of ?P] by blast
  from n obtain pre a n1 n2 n3 al post where p: "wellFormed n1 n2 n3 al" "length pre = n"
    "t = pre @ rgbaText a n1 n2 n3 al @ post" by blast
  have "\<not> occurs pre"
  proof
    assume "occurs pre"
    then obtain pre' post' b m1 m2 m3 bl where q: "wellFormed m1 m2 m3 bl"
      "pre = pre' @ rgbaText b m1 m2 m3 bl @ post'"
      unfolding occurs_def by blast
    have "0 < length (rgbaText b m1 m2 m3 bl)" by (simp add: rgbaText_def)
    with q(2) p(2) have "length pre' < n" by auto
    moreover from p(3) q have "wellFormed m1 m2 m3 bl \<and> length pre' = length pre' \<and>
        t = pre' @ rgbaText b m1 m2 m3 bl @ (post' @ rgbaText a n1 n2 n3 al @ post)" by simp
    then have "?P (length pre')" by blast
    ultimately show False using least by blast
  qed
  with p show ?thesis by blast
qed

lemma occurs_has_close: "occurs t \<Longrightarrow> CHR '')'' \<in> set t"
  by (auto simp: occurs_def rgbaText_def)

section \<open>Reading numbers\<close>

lemma toNumber_unsigned: "unsigned n \<Longrightarrow> toNumber n = Fin (real (decimalValue n))"
proof -
  assume "unsigned n"
  then have a: "takeWhile isDigit n = n" and b: "dropWhile isDigit n = []"
    by (simp_all add: unsigned_def list_all_iff)
  show ?thesis unfolding toNumber_def Let_def by (simp only: a b list.case)
qed

lemma hex_facts:
  assumes "isHex x"
  shows "\<not> isWhiteSpace x" "x \<noteq> CHR ''-''" "x \<noteq> CHR ''+''" "x \<noteq> CHR ''x''" "x \<noteq> CHR ''X''"
  using assms by (auto simp: char_defs split: if_splits)

lemma parseInt16_hex2:
  assumes "isHex x" "isHex y"
  shows "parseInt16 [x, y] = Fin (real (16 * the (hexValue x) + the (hexValue y)))"
  using assms hex_facts [OF assms(1)] hex_facts [OF assms(2)]
  by (simp add: parseInt16_def)

lemma hexValue_less: "isHex x \<Longrightarrow> the (hexValue x) < 16"
  by (auto simp: char_defs split: if_splits)

section \<open>What a string is read as\<close>

lemma filter_head: "filter P s = y # t \<Longrightarrow> s \<noteq> [] \<and> (hd s = y \<or> \<not> P (hd s))"
  by (cases s) (auto split: if_splits)

lemma functional_no_hash:
  assumes "filter (\<lambda>x. x \<noteq> CHR '' '') s = rgbaText a n1 n2 n3 al @ post"
  shows "\<not> (s \<noteq> [] \<and> hd s = CHR ''#'')"
proof -
  from assms have "filter (\<lambda>x. x \<noteq> CHR '' '') s = CHR ''r'' # tl (rgbaText a n1 n2 n3 al @ post)"
    by (simp add: rgbaText_def)
  from filter_head [OF this] show ?thesis by auto
qed

lemma components_functional:
  assumes t: "filter (\<lambda>x. x \<noteq> CHR '' '') s = rgbaText a n1 n2 n3 al @ post"
    and w: "wellFormed n1 n2 n3 al"
  shows "components s =
           (case al of
              None \<Rightarrow> Inr [toNumber n1, toNumber n2, toNumber n3]
            | Some x \<Rightarrow> if x = ''1'' then Inr [toNumber n1, toNumber n2, toNumber n3]
                        else Inl (NeedsAlphaBlending (Str s) (toNumber x)))"
proof -
  have m: "match RGBA_PATTERN (filter (\<lambda>x. x \<noteq> CHR '' '') s) =
             Some (captured (\<lambda>i. None) n1 n2 n3 al)"
    by (simp only: t match_rgba [OF w])
  have "\<not> (s \<noteq> [] \<and> hd s = CHR ''#'')" by (rule functional_no_hash [OF t])
  then have "components s =
      (let matches = captured (\<lambda>i. None) n1 n2 n3 al
       in if matches 4 \<noteq> None \<and> matches 4 \<noteq> Some [] \<and> matches 4 \<noteq> Some ''1''
          then Inl (NeedsAlphaBlending (Str s) (numberOf (matches 4)))
          else Inr [numberOf (matches 1), numberOf (matches 2), numberOf (matches 3)])"
    unfolding components_def by (simp only: m if_False option.case Let_def)
  also have "\<dots> = (case al of
              None \<Rightarrow> Inr [toNumber n1, toNumber n2, toNumber n3]
            | Some x \<Rightarrow> if x = ''1'' then Inr [toNumber n1, toNumber n2, toNumber n3]
                        else Inl (NeedsAlphaBlending (Str s) (toNumber x)))"
    using w
    by (cases al) (auto simp: captured_def numberOf_def wellFormed_def dest: alphaForm_not_empty)
  finally show ?thesis .
qed

lemma components_first_form:
  assumes h: "\<not> (s \<noteq> [] \<and> hd s = CHR ''#'')"
    and t: "filter (\<lambda>x. x \<noteq> CHR '' '') s = pre @ rgbaText a n1 n2 n3 al @ post"
    and w: "wellFormed n1 n2 n3 al" and no: "\<not> occurs pre"
  shows "components s =
           (case al of
              None \<Rightarrow> Inr [toNumber n1, toNumber n2, toNumber n3]
            | Some x \<Rightarrow> if x = ''1'' then Inr [toNumber n1, toNumber n2, toNumber n3]
                        else Inl (NeedsAlphaBlending (Str s) (toNumber x)))"
proof -
  have m: "match RGBA_PATTERN (filter (\<lambda>x. x \<noteq> CHR '' '') s) =
             Some (captured (\<lambda>i. None) n1 n2 n3 al)"
    by (simp only: t match_rgba_first [OF w no])
  have "components s =
      (let matches = captured (\<lambda>i. None) n1 n2 n3 al
       in if matches 4 \<noteq> None \<and> matches 4 \<noteq> Some [] \<and> matches 4 \<noteq> Some ''1''
          then Inl (NeedsAlphaBlending (Str s) (numberOf (matches 4)))
          else Inr [numberOf (matches 1), numberOf (matches 2), numberOf (matches 3)])"
    unfolding components_def by (simp only: m if_not_P [OF h] option.case Let_def)
  also have "\<dots> = (case al of
              None \<Rightarrow> Inr [toNumber n1, toNumber n2, toNumber n3]
            | Some x \<Rightarrow> if x = ''1'' then Inr [toNumber n1, toNumber n2, toNumber n3]
                        else Inl (NeedsAlphaBlending (Str s) (toNumber x)))"
    using w
    by (cases al) (auto simp: captured_def numberOf_def wellFormed_def dest: alphaForm_not_empty)
  finally show ?thesis .
qed

lemma components_no_match:
  assumes "\<not> (s \<noteq> [] \<and> hd s = CHR ''#'')" "\<not> occurs (filter (\<lambda>x. x \<noteq> CHR '' '') s)"
  shows "components s = Inl (UnsupportedFormat (Str s))"
proof -
  from assms(2) have "match RGBA_PATTERN (filter (\<lambda>x. x \<noteq> CHR '' '') s) = None"
    by (simp add: match_rgba_None)
  then show ?thesis
    unfolding components_def by (simp only: if_not_P [OF assms(1)] option.case)
qed

lemma components_Unsupported:
  assumes "\<not> (s \<noteq> [] \<and> hd s = CHR ''#'')" "components s = Inl (UnsupportedFormat l)"
  shows "\<not> occurs (filter (\<lambda>x. x \<noteq> CHR '' '') s)"
proof -
  from assms(2) have
    "(case match RGBA_PATTERN (filter (\<lambda>x. x \<noteq> CHR '' '') s) of
        Some matches \<Rightarrow>
          if matches 4 \<noteq> None \<and> matches 4 \<noteq> Some [] \<and> matches 4 \<noteq> Some ''1''
          then Inl (NeedsAlphaBlending (Str s) (numberOf (matches 4)))
          else Inr [numberOf (matches 1), numberOf (matches 2), numberOf (matches 3)]
      | None \<Rightarrow> Inl (UnsupportedFormat (Str s))) = Inl (UnsupportedFormat l)"
    unfolding components_def by (simp only: if_not_P [OF assms(1)])
  then have "match RGBA_PATTERN (filter (\<lambda>x. x \<noteq> CHR '' '') s) = None"
    by (cases "match RGBA_PATTERN (filter (\<lambda>x. x \<noteq> CHR '' '') s)")
       (simp_all split: if_splits)
  then show ?thesis by (simp add: match_rgba_None)
qed

lemma arrayLuminance_error: "arrayLuminance a = Inl e \<Longrightarrow>
    e = UnsupportedFormat (Arr a) \<or> e = NeedsAlphaBlending (Arr a) (a ! 3)"
  by (auto simp: arrayLuminance_def assertRgbColor_def split: option.splits if_splits)

lemma occurs_has_paren: "occurs t \<Longrightarrow> CHR ''('' \<in> set t"
  by (auto simp: occurs_def rgbaText_def)

lemma inherited_unsupported:
  assumes "s \<in> set Object_prototype"
  shows "fresh s = Inl (UnsupportedFormat (Str s))"
proof -
  from assms have "CHR ''('' \<notin> set (filter (\<lambda>x. x \<noteq> CHR '' '') s)" "\<not> (s \<noteq> [] \<and> hd s = CHR ''#'')"
    by (auto simp: Object_prototype_def)
  then have "components s = Inl (UnsupportedFormat (Str s))"
    using occurs_has_paren components_no_match by blast
  then show ?thesis by (simp add: fresh_def)
qed

section \<open>Calls on a cache the program can have\<close>

lemma reachable_hit:
  assumes "reachable C" "truthy (lookup C s)"
  shows "(\<exists>l. fresh s = Inr l \<and> C s = Some l \<and> lookup C s = Some (Number l)) \<or>
         (s \<in> set Object_prototype \<and> lookup C s = Some (Inherited s))"
  using truthy_lookup [OF assms(2)] reachable_consistent [OF assms(1)]
  by (auto simp: consistent_def)

lemma reachable_error:
  assumes "reachable C" "fresh s = Inl e" "s \<notin> set Object_prototype"
  shows "colorLuminance (Str s) cache C = (Inl e, C)"
proof -
  have "\<not> truthy (lookup C s)"
    using reachable_hit [OF assms(1), of s] assms(2,3) by auto
  then show ?thesis using assms(2) by (simp add: colorLuminance_Str)
qed

lemma reachable_value:
  assumes "reachable C" "fresh s = Inr l"
  shows "colorLuminance (Str s) cache C = (Inr (Number l), C(s \<mapsto> l))"
proof (cases "cache \<and> truthy (lookup C s)")
  case True
  with reachable_hit [OF assms(1), of s] assms(2) inherited_unsupported [of s]
  have "C s = Some l" "lookup C s = Some (Number l)" by auto
  moreover from \<open>C s = Some l\<close> have "C(s \<mapsto> l) = C" by (simp add: fun_upd_idem)
  ultimately show ?thesis by (simp add: colorLuminance_Str assms(2))
next
  case False
  then show ?thesis by (simp only: colorLuminance_Str if_False assms(2) sum.case)
qed

section \<open>What calls do to the cache\<close>

lemmas eval_defs = colorLuminance_def arrayLuminance_def assertRgbColor_def
  componentsToLuminance_def hexToByte_def parseInt16_def char_defs lookup_def
  Object_prototype_def assign_def slice_def

lemma black_hex: "colorLuminance (Str ''#000'') cache Map.empty =
    (Inr (Number (Fin 0)), [''#000'' \<mapsto> Fin 0])"
  by (simp add: eval_defs)

lemma white_hex: "colorLuminance (Str ''#fff'') cache [''#000'' \<mapsto> Fin 0] =
    (Inr (Number (Fin 1)), [''#000'' \<mapsto> Fin 0, ''#fff'' \<mapsto> Fin 1])"
  by (simp add: eval_defs)


lemma call_keeps_entries:
  assumes "reachable C" "C k = Some l"
  shows "snd (colorLuminance color cache C) k = Some l"
proof (cases color)
  case (Arr a)
  with assms(2) show ?thesis by (simp add: colorLuminance_Arr split: sum.splits)
next
  case (Str s)
  show ?thesis
  proof (cases "fresh s")
    case (Inl e)
    with assms(2) Str show ?thesis by (simp add: colorLuminance_Str)
  next
    case (Inr v)
    from reachable_value [OF assms(1) Inr, of cache] Str
    have c: "snd (colorLuminance color cache C) = C(s \<mapsto> v)" by simp
    from reachable_consistent [OF assms(1)] assms(2) Inr have "k = s \<longrightarrow> l = v"
      by (auto simp: consistent_def)
    with assms(2) show ?thesis unfolding c by auto
  qed
qed

lemma contrast_cache:
  "snd (contrast color background C) =
     (case fst (colorLuminance color True C) of
        Inl e \<Rightarrow> snd (colorLuminance color True C)
      | Inr la \<Rightarrow> snd (colorLuminance background True (snd (colorLuminance color True C))))"
  by (cases "colorLuminance color True C";
      cases "colorLuminance background True (snd (colorLuminance color True C))")
     (auto simp: contrast_def sort2_def Let_def split: sum.splits jsvalue.splits prod.splits)

lemma contrast_keeps_entries:
  assumes "reachable C" "C k = Some l"
  shows "snd (contrast color background C) k = Some l"
proof -
  let ?C1 = "snd (colorLuminance color True C)"
  have 1: "reachable ?C1" by (rule reachable.call [OF assms(1)])
  have 2: "?C1 k = Some l" by (rule call_keeps_entries [OF assms])
  have 3: "snd (colorLuminance background True ?C1) k = Some l"
    by (rule call_keeps_entries [OF 1 2])
  from 2 3 show ?thesis by (simp add: contrast_cache split: sum.splits)
qed

lemma uncached_fresh:
  "fst (colorLuminance (Str s) False X) =
     (case fresh s of Inl e \<Rightarrow> Inl e | Inr l \<Rightarrow> Inr (Number l))"
  by (simp add: colorLuminance_Str split: sum.splits)

text \<open>
  C8. On a cache the program can have, after any call of \<open>colorLuminance\<close>: every entry
  holds the luminance that a call with the cache switched off returns for its key; a call on an array and a call that throws
  leave the cache as it was; a call on a string that returns a number leaves that number
  under that string and changes nothing else; a key that is new after the call is the
  string of the call, which returned a number; and every entry that was there is still
  there with the same value, after the call and after any call of \<open>contrast\<close>.
\<close>

theorem cache_discipline:
  assumes "reachable C" and "colorLuminance color cache C = (res, C')"
  shows "(\<forall>s l. C' s = Some l \<longrightarrow>
            fst (colorLuminance (Str s) False C') = Inr (Number l)) \<and>
         (\<forall>a. color = Arr a \<longrightarrow> C' = C) \<and>
         (\<forall>e. res = Inl e \<longrightarrow> C' = C) \<and>
         (\<forall>s l. color = Str s \<and> res = Inr (Number l) \<longrightarrow> C' = C(s \<mapsto> l)) \<and>
         (\<forall>k. C k = None \<and> C' k \<noteq> None \<longrightarrow> color = Str k \<and> (\<exists>l. res = Inr (Number l))) \<and>
         (\<forall>k l. C k = Some l \<longrightarrow> C' k = Some l) \<and>
         (\<forall>k l a b. C k = Some l \<longrightarrow> snd (contrast a b C) k = Some l)"
proof -
  have 7: "\<forall>k l a b. C k = Some l \<longrightarrow> snd (contrast a b C) k = Some l"
    using contrast_keeps_entries [OF assms(1)] by blast
  have "reachable (snd (colorLuminance color cache C))"
    by (rule reachable.call [OF assms(1)])
  then have "consistent C'" using assms(2) by (simp add: reachable_consistent)
  then have 1: "\<forall>s l. C' s = Some l \<longrightarrow>
      fst (colorLuminance (Str s) False C') = Inr (Number l)"
    by (simp add: consistent_def uncached_fresh)
  have c: "consistent C" by (rule reachable_consistent [OF assms(1)])
  show ?thesis
  proof (cases color)
    case (Arr a)
    with assms(2) have "C' = C" "\<And>k. color \<noteq> Str k"
      by (auto simp: colorLuminance_Arr split: sum.splits)
    with 1 7 Arr show ?thesis by auto
  next
    case (Str s)
    show ?thesis
    proof (cases "cache \<and> truthy (lookup C s)")
      case True
      with assms(2) Str have r: "res = Inr (the (lookup C s))" "C' = C"
        by (auto simp: colorLuminance_Str)
      from truthy_lookup [of C s] True r(1)
      have "\<forall>l. res = Inr (Number l) \<longrightarrow> C s = Some l" by auto
      then have "\<forall>l. res = Inr (Number l) \<longrightarrow> C(s \<mapsto> l) = C" by (simp add: fun_upd_idem)
      with 1 7 r Str show ?thesis by auto
    next
      case False
      show ?thesis
      proof (cases "fresh s")
        case (Inl e)
        with assms(2) Str False have "res = Inl e" "C' = C"
          by (simp_all add: colorLuminance_Str)
        with 1 7 Str show ?thesis by auto
      next
        case (Inr l)
        with assms(2) Str False have r: "res = Inr (Number l)" "C' = C(s \<mapsto> l)"
          by (auto simp: colorLuminance_Str)
        have "C k = Some v \<longrightarrow> C' k = Some v" for k v
          using c Inr r(2) by (auto simp: consistent_def)
        with 1 7 r Str show ?thesis by auto
      qed
    qed
  qed
qed

theorem cache_discipline_witness:
  "reachable [''#000'' \<mapsto> Fin 0] \<and>
   colorLuminance (Str ''#fff'') True [''#000'' \<mapsto> Fin 0] =
     (Inr (Number (Fin 1)), [''#000'' \<mapsto> Fin 0, ''#fff'' \<mapsto> Fin 1]) \<and>
   fst (colorLuminance (Str ''#fff'') False [''#000'' \<mapsto> Fin 0, ''#fff'' \<mapsto> Fin 1]) =
     Inr (Number (Fin 1)) \<and>
   fst (colorLuminance (Str ''#000'') False [''#000'' \<mapsto> Fin 0, ''#fff'' \<mapsto> Fin 1]) =
     Inr (Number (Fin 0))"
proof -
  have "reachable (snd (colorLuminance (Str ''#000'') True Map.empty))"
    by (rule reachable.call [OF reachable.initial])
  then have r: "reachable [''#000'' \<mapsto> Fin 0]" by (simp only: black_hex snd_conv)
  from cache_discipline [OF r white_hex [of True]]
  have "\<forall>s l. [''#000'' \<mapsto> Fin 0, ''#fff'' \<mapsto> Fin 1] s = Some l \<longrightarrow>
      fst (colorLuminance (Str s) False [''#000'' \<mapsto> Fin 0, ''#fff'' \<mapsto> Fin 1]) =
        Inr (Number l)"
    by blast
  then have
    "fst (colorLuminance (Str ''#fff'') False [''#000'' \<mapsto> Fin 0, ''#fff'' \<mapsto> Fin 1]) =
       Inr (Number (Fin 1))"
    "fst (colorLuminance (Str ''#000'') False [''#000'' \<mapsto> Fin 0, ''#fff'' \<mapsto> Fin 1]) =
       Inr (Number (Fin 0))"
    by simp_all
  with r white_hex [of True] show ?thesis by simp
qed







section \<open>Hexadecimal strings\<close>

lemma hexToByte_byte: "isHex x \<Longrightarrow> isHex y \<Longrightarrow> hexToByte [x, y] = Fin (real (byte x y))"
  by (simp add: hexToByte_def parseInt16_hex2 byte_def)

lemma byte_range: "isHex x \<Longrightarrow> isHex y \<Longrightarrow> byte x y \<le> 255"
  using hexValue_less [of x] hexValue_less [of y] by (simp add: byte_def)

lemma hash_not_inherited: "CHR ''#'' # h \<notin> set Object_prototype"
  by (simp add: Object_prototype_def)

lemma components_hex3:
  "components [CHR ''#'', a, b, c] =
     Inr [hexToByte [a, a], hexToByte [b, b], hexToByte [c, c]]"
  by (simp add: components_def)

lemma components_hex6:
  "components [CHR ''#'', h1, h2, h3, h4, h5, h6] =
     Inr [hexToByte [h1, h2], hexToByte [h3, h4], hexToByte [h5, h6]]"
  by (simp add: components_def slice_def)

lemma components_hex8:
  "components [CHR ''#'', h1, h2, h3, h4, h5, h6, x, y] =
     (if strictNotEqual (hexToByte [x, y]) (Fin 255)
      then Inl (NeedsAlphaBlending (Str [CHR ''#'', h1, h2, h3, h4, h5, h6, x, y])
                  (hexToByte [x, y]))
      else Inr [hexToByte [h1, h2], hexToByte [h3, h4], hexToByte [h5, h6]])"
  by (simp add: components_def slice_def)

lemma length8:
  assumes "length h = 8"
  obtains h1 h2 h3 h4 h5 h6 x y where "h = [h1, h2, h3, h4, h5, h6, x, y]"
proof -
  from assms have "length h = Suc (Suc (Suc (Suc (Suc (Suc (Suc (Suc 0)))))))" by simp
  then show thesis using that by (auto simp: length_Suc_conv)
qed

section \<open>Decimal digits\<close>

lemma digit_char: "n < 10 \<Longrightarrow> isDigit (char_of (48 + n)) \<and> digitValue (char_of (48 + n)) = n"
  by (simp add: char_defs)

lemma decimalValue_snoc: "decimalValue (ds @ [x]) = 10 * decimalValue ds + digitValue x"
  by (simp add: decimalValue_def)

lemma decimal_reads_back:
  "unsigned (decimal n) \<and> decimalValue (decimal n) = n"
proof (induction n rule: decimal.induct)
  case (1 n)
  show ?case
  proof (cases "n < 10")
    case True
    then have "decimal n = [char_of (48 + n)]" by (simp add: decimal.simps)
    with digit_char [OF True] show ?thesis
      by (simp add: unsigned_def decimalValue_def)
  next
    case False
    then have d: "decimal n = decimal (n div 10) @ [char_of (48 + n mod 10)]"
      by (subst decimal.simps) simp
    have "n mod 10 < 10" by simp
    from digit_char [OF this] 1 [OF False] show ?thesis
      unfolding d decimalValue_snoc by (simp add: unsigned_def)
  qed
qed

section \<open>Colours that are not opaque\<close>

lemma strictNotEqual_one: "strictNotEqual x (Fin 1) \<longleftrightarrow> x \<noteq> Fin 1"
  by (cases x) simp_all

lemma fresh_hex8_alpha:
  assumes "length h = 8" "isHex (h ! 6)" "isHex (h ! 7)" "byte (h ! 6) (h ! 7) \<noteq> 255"
  shows "fresh (CHR ''#'' # h) =
           Inl (NeedsAlphaBlending (Str (CHR ''#'' # h)) (Fin (real (byte (h ! 6) (h ! 7)))))"
proof -
  from assms(1) obtain h1 h2 h3 h4 h5 h6 x y where h: "h = [h1, h2, h3, h4, h5, h6, x, y]"
    by (rule length8)
  with assms have "hexToByte [x, y] = Fin (real (byte x y))" "byte x y \<noteq> 255"
    by (simp_all add: hexToByte_byte)
  then show ?thesis
    unfolding h fresh_def components_hex8 by simp
qed

lemma fresh_functional_alpha:
  assumes "filter (\<lambda>x. x \<noteq> CHR '' '') s = rgbaText a n1 n2 n3 (Some x)"
    "wellFormed n1 n2 n3 (Some x)" "x \<noteq> ''1''"
  shows "fresh s = Inl (NeedsAlphaBlending (Str s) (toNumber x))"
  using components_functional [of s a n1 n2 n3 "Some x" "[]"] assms
  by (simp add: fresh_def)

lemma functional_not_inherited:
  assumes "filter (\<lambda>x. x \<noteq> CHR '' '') s = rgbaText a n1 n2 n3 al @ post"
  shows "s \<notin> set Object_prototype"
proof
  assume "s \<in> set Object_prototype"
  then have "CHR ''('' \<notin> set (filter (\<lambda>x. x \<noteq> CHR '' '') s)"
    by (auto simp: Object_prototype_def)
  with assms show False by (simp add: rgbaText_def)
qed

lemma arrayLuminance_alpha:
  assumes "length rgba = 4" "\<forall>d \<in> set rgba. \<not> num_lt d (Fin 0) \<and> \<not> num_gt d (Fin 255)"
    "rgba ! 3 \<noteq> Fin 1"
  shows "arrayLuminance rgba = Inl (NeedsAlphaBlending (Arr rgba) (rgba ! 3))"
  using assms
  by (simp add: arrayLuminance_def assertRgbColor_def strictNotEqual_one list_ex_iff)

text \<open>
  C3. On a cache the program can have, each of these inputs makes \<open>colorLuminance\<close> throw
  \<open>NeedsAlphaBlending\<close> with the literal and the alpha value read from it, the cache
  left as it was: \<open>#\<close> with eight hexadecimal digits of which the last two are not the
  byte 255; a string that without its spaces is the functional notation with an alpha
  component other than \<open>1\<close>; an array of four numbers that the range check accepts and
  of which the fourth is not 1.
\<close>

theorem translucent_needs_alpha_blending:
  assumes "reachable C"
  shows "(length h = 8 \<and> list_all isHex h \<and> byte (h ! 6) (h ! 7) \<noteq> 255 \<longrightarrow>
            colorLuminance (Str (CHR ''#'' # h)) cache C =
              (Inl (NeedsAlphaBlending (Str (CHR ''#'' # h))
                      (Fin (real (byte (h ! 6) (h ! 7))))), C)) \<and>
         (filter (\<lambda>x. x \<noteq> CHR '' '') s = rgbaText a n1 n2 n3 (Some x) \<and>
          wellFormed n1 n2 n3 (Some x) \<and> x \<noteq> ''1'' \<longrightarrow>
            colorLuminance (Str s) cache C =
              (Inl (NeedsAlphaBlending (Str s) (toNumber x)), C)) \<and>
         (length rgba = 4 \<and> (\<forall>d \<in> set rgba. \<not> num_lt d (Fin 0) \<and> \<not> num_gt d (Fin 255)) \<and>
          rgba ! 3 \<noteq> Fin 1 \<longrightarrow>
            colorLuminance (Arr rgba) cache C =
              (Inl (NeedsAlphaBlending (Arr rgba) (rgba ! 3)), C))"
proof (intro conjI impI)
  assume a: "length h = 8 \<and> list_all isHex h \<and> byte (h ! 6) (h ! 7) \<noteq> 255"
  then have "isHex (h ! 6)" "isHex (h ! 7)" by (simp_all add: list_all_length)
  with a have "fresh (CHR ''#'' # h) =
      Inl (NeedsAlphaBlending (Str (CHR ''#'' # h)) (Fin (real (byte (h ! 6) (h ! 7)))))"
    by (simp add: fresh_hex8_alpha)
  from reachable_error [OF assms this hash_not_inherited]
  show "colorLuminance (Str (CHR ''#'' # h)) cache C =
      (Inl (NeedsAlphaBlending (Str (CHR ''#'' # h)) (Fin (real (byte (h ! 6) (h ! 7))))), C)" .
next
  assume a: "filter (\<lambda>x. x \<noteq> CHR '' '') s = rgbaText a n1 n2 n3 (Some x) \<and>
          wellFormed n1 n2 n3 (Some x) \<and> x \<noteq> ''1''"
  then have f: "fresh s = Inl (NeedsAlphaBlending (Str s) (toNumber x))"
    by (simp add: fresh_functional_alpha)
  from a have "s \<notin> set Object_prototype"
    using functional_not_inherited [of s a n1 n2 n3 "Some x" "[]"] by simp
  from reachable_error [OF assms f this]
  show "colorLuminance (Str s) cache C = (Inl (NeedsAlphaBlending (Str s) (toNumber x)), C)" .
next
  assume "length rgba = 4 \<and> (\<forall>d \<in> set rgba. \<not> num_lt d (Fin 0) \<and> \<not> num_gt d (Fin 255)) \<and>
          rgba ! 3 \<noteq> Fin 1"
  then have "arrayLuminance rgba = Inl (NeedsAlphaBlending (Arr rgba) (rgba ! 3))"
    by (simp add: arrayLuminance_alpha)
  then show "colorLuminance (Arr rgba) cache C =
      (Inl (NeedsAlphaBlending (Arr rgba) (rgba ! 3)), C)"
    by (simp add: colorLuminance_Arr)
qed

theorem translucent_needs_alpha_blending_witness:
  "colorLuminance (Str ''#ffffff66'') True Map.empty =
     (Inl (NeedsAlphaBlending (Str ''#ffffff66'') (Fin 102)), Map.empty) \<and>
   colorLuminance (Str ''rgba(255, 255, 255, .4)'') True Map.empty =
     (Inl (NeedsAlphaBlending (Str ''rgba(255, 255, 255, .4)'') (Fin 0.4)), Map.empty) \<and>
   colorLuminance (Arr [Fin 255, Fin 255, Fin 255, Fin 0.4]) True Map.empty =
     (Inl (NeedsAlphaBlending (Arr [Fin 255, Fin 255, Fin 255, Fin 0.4]) (Fin 0.4)),
      Map.empty)"
proof -
  note t = translucent_needs_alpha_blending [OF reachable.initial,
      where h = "''ffffff66''" and s = "''rgba(255, 255, 255, .4)''" and a = True
        and ?n1.0 = "''255''" and ?n2.0 = "''255''" and ?n3.0 = "''255''" and x = "''.4''"
        and rgba = "[Fin 255, Fin 255, Fin 255, Fin 0.4]" and cache = True]
  have 1: "length ''ffffff66'' = 8 \<and> list_all isHex ''ffffff66'' \<and>
           byte (''ffffff66'' ! 6) (''ffffff66'' ! 7) \<noteq> 255"
    by (simp add: byte_def char_defs)
  have 2: "filter (\<lambda>x. x \<noteq> CHR '' '') ''rgba(255, 255, 255, .4)'' =
             rgbaText True ''255'' ''255'' ''255'' (Some ''.4'') \<and>
           wellFormed ''255'' ''255'' ''255'' (Some ''.4'') \<and> ''.4'' \<noteq> ''1''"
    by (simp add: rgbaText_def wellFormed_def unsigned_def alphaForm_def char_defs)
  have 3: "length [Fin 255, Fin 255, Fin 255, Fin 0.4] = 4 \<and>
           (\<forall>d \<in> set [Fin 255, Fin 255, Fin 255, Fin 0.4].
              \<not> num_lt d (Fin 0) \<and> \<not> num_gt d (Fin 255)) \<and>
           [Fin 255, Fin 255, Fin 255, Fin 0.4] ! 3 \<noteq> Fin 1"
    by simp
  have 4: "byte CHR ''6'' CHR ''6'' = 102"
    by (simp add: byte_def char_defs)
  have 5: "toNumber ''.4'' = Fin 0.4"
    by (simp add: toNumber_def decimalValue_def char_defs)
  from t 1 2 3 show ?thesis by (simp add: 4 5)
qed

section \<open>One colour, several encodings\<close>

lemma fresh_bytes:
  assumes "components s = Inr [Fin (real r), Fin (real g), Fin (real b)]"
    "r \<le> 255" "g \<le> 255" "b \<le> 255"
  shows "fresh s = Inr (Fin (spec_luminance (real r) (real g) (real b)))"
  using assms by (simp add: fresh_def arrayLuminance_triple)

lemma components_rgb_decimal:
  "components (''rgb('' @ decimal r @ '','' @ decimal g @ '','' @ decimal b @ '')'') =
     Inr [Fin (real r), Fin (real g), Fin (real b)]"
proof -
  let ?s = "''rgb('' @ decimal r @ '','' @ decimal g @ '','' @ decimal b @ '')''"
  have u: "unsigned (decimal r)" "unsigned (decimal g)" "unsigned (decimal b)"
    by (simp_all add: decimal_reads_back)
  have nospace: "filter (\<lambda>x. x \<noteq> CHR '' '') n = n" if "unsigned n" for n
    using that by (auto simp: unsigned_def list_all_iff char_defs intro!: filter_True)
  have "filter (\<lambda>x. x \<noteq> CHR '' '') ?s =
          rgbaText False (decimal r) (decimal g) (decimal b) None @ []"
    by (simp add: rgbaText_def nospace u)
  from components_functional [OF this] u
  show ?thesis
    by (simp add: wellFormed_def toNumber_unsigned decimal_reads_back)
qed

text \<open>
  C5. The same colour gives the same luminance in every encoding, on every cache the
  program can have: six hexadecimal digits, the same with the alpha byte \<open>FF\<close> or \<open>ff\<close>
  after them, the functional notation with the three bytes in decimal, the array of
  the three bytes, and, when the two digits of each byte are equal, the three-digit
  shorthand.
\<close>

theorem encodings_agree:
  assumes "reachable C"
    and "isHex h1" "isHex h2" "isHex h3" "isHex h4" "isHex h5" "isHex h6"
  shows "fst (colorLuminance (Str [CHR ''#'', h1, h2, h3, h4, h5, h6]) cache C) =
           fst (colorLuminance (Arr [Fin (real (byte h1 h2)), Fin (real (byte h3 h4)),
                                     Fin (real (byte h5 h6))]) cache C) \<and>
         fst (colorLuminance (Str ([CHR ''#'', h1, h2, h3, h4, h5, h6] @ ''FF'')) cache C) =
           fst (colorLuminance (Arr [Fin (real (byte h1 h2)), Fin (real (byte h3 h4)),
                                     Fin (real (byte h5 h6))]) cache C) \<and>
         fst (colorLuminance (Str ([CHR ''#'', h1, h2, h3, h4, h5, h6] @ ''ff'')) cache C) =
           fst (colorLuminance (Arr [Fin (real (byte h1 h2)), Fin (real (byte h3 h4)),
                                     Fin (real (byte h5 h6))]) cache C) \<and>
         fst (colorLuminance (Str (''rgb('' @ decimal (byte h1 h2) @ '','' @
                 decimal (byte h3 h4) @ '','' @ decimal (byte h5 h6) @ '')'')) cache C) =
           fst (colorLuminance (Arr [Fin (real (byte h1 h2)), Fin (real (byte h3 h4)),
                                     Fin (real (byte h5 h6))]) cache C) \<and>
         (h1 = h2 \<and> h3 = h4 \<and> h5 = h6 \<longrightarrow>
            fst (colorLuminance (Str [CHR ''#'', h1, h3, h5]) cache C) =
              fst (colorLuminance (Arr [Fin (real (byte h1 h2)), Fin (real (byte h3 h4)),
                                        Fin (real (byte h5 h6))]) cache C)) \<and>
         fst (colorLuminance (Arr [Fin (real (byte h1 h2)), Fin (real (byte h3 h4)),
                                   Fin (real (byte h5 h6))]) cache C) =
           Inr (Number (Fin (spec_luminance (real (byte h1 h2)) (real (byte h3 h4))
                               (real (byte h5 h6)))))"
proof -
  let ?r = "byte h1 h2" and ?g = "byte h3 h4" and ?b = "byte h5 h6"
  let ?l = "Fin (spec_luminance (real ?r) (real ?g) (real ?b))"
  have range: "?r \<le> 255" "?g \<le> 255" "?b \<le> 255"
    using assms by (simp_all add: byte_range)
  have bytes: "hexToByte [h1, h2] = Fin (real ?r)" "hexToByte [h3, h4] = Fin (real ?g)"
    "hexToByte [h5, h6] = Fin (real ?b)"
    using assms by (simp_all add: hexToByte_byte)
  have ff: "hexToByte ''FF'' = Fin 255" "hexToByte ''ff'' = Fin 255"
    by (simp_all add: hexToByte_def parseInt16_def char_defs)
  have arr: "fst (colorLuminance (Arr [Fin (real ?r), Fin (real ?g), Fin (real ?b)]) cache C) =
      Inr (Number ?l)"
    using range by (simp add: colorLuminance_Arr arrayLuminance_triple)
  have str: "fst (colorLuminance (Str s) cache C) = Inr (Number ?l)"
    if "components s = Inr [Fin (real ?r), Fin (real ?g), Fin (real ?b)]" for s
    using reachable_value [OF assms(1) fresh_bytes [OF that range]] by simp
  have 6: "components [CHR ''#'', h1, h2, h3, h4, h5, h6] =
      Inr [Fin (real ?r), Fin (real ?g), Fin (real ?b)]"
    by (simp only: components_hex6 bytes)
  have 8: "components ([CHR ''#'', h1, h2, h3, h4, h5, h6] @ ''FF'') =
      Inr [Fin (real ?r), Fin (real ?g), Fin (real ?b)]"
    "components ([CHR ''#'', h1, h2, h3, h4, h5, h6] @ ''ff'') =
      Inr [Fin (real ?r), Fin (real ?g), Fin (real ?b)]"
    using components_hex8 [of h1 h2 h3 h4 h5 h6 "CHR ''F''" "CHR ''F''"]
      components_hex8 [of h1 h2 h3 h4 h5 h6 "CHR ''f''" "CHR ''f''"]
    by (simp_all add: ff bytes)
  have 3: "components [CHR ''#'', h1, h3, h5] =
      Inr [Fin (real ?r), Fin (real ?g), Fin (real ?b)]" if "h1 = h2 \<and> h3 = h4 \<and> h5 = h6"
    using that bytes by (simp add: components_hex3)
  show ?thesis
    apply (intro conjI impI)
    subgoal by (simp only: str [OF 6] arr)
    subgoal by (simp only: str [OF 8(1)] arr)
    subgoal by (simp only: str [OF 8(2)] arr)
    subgoal by (simp only: str [OF components_rgb_decimal] arr)
    subgoal premises e by (simp only: str [OF 3 [OF e]] arr)
    subgoal by (rule arr)
    done
qed

theorem encodings_agree_witness:
  "fst (colorLuminance (Str ''#ff0000'') True Map.empty) = Inr (Number (Fin 0.2126)) \<and>
   fst (colorLuminance (Str ''#ff0000FF'') True Map.empty) = Inr (Number (Fin 0.2126)) \<and>
   fst (colorLuminance (Str ''rgb(255,0,0)'') True Map.empty) = Inr (Number (Fin 0.2126)) \<and>
   fst (colorLuminance (Str ''#f00'') True Map.empty) = Inr (Number (Fin 0.2126)) \<and>
   fst (colorLuminance (Arr [Fin 255, Fin 0, Fin 0]) True Map.empty) =
     Inr (Number (Fin 0.2126))"
proof -
  have h: "isHex CHR ''f''" "isHex CHR ''0''" by (simp_all add: char_defs)
  have b: "byte CHR ''f'' CHR ''f'' = 255" "byte CHR ''0'' CHR ''0'' = 0"
    by (simp_all add: byte_def char_defs)
  have d: "decimal 255 = ''255''" "decimal 0 = ''0''"
    by (simp_all add: decimal.simps [of 255] decimal.simps [of 25] decimal.simps [of 2]
          decimal.simps [of 0] char_of_eq_iff)
  have l: "spec_luminance 255 0 0 = 0.2126"
    by (simp add: spec_luminance_def spec_linear_def)
  from encodings_agree [OF reachable.initial h(1) h(1) h(2) h(2) h(2) h(2), of True]
  show ?thesis by (simp add: b d l)
qed

section \<open>The functional notation\<close>

lemma run_RGBA_other_start: "s = [] \<or> hd s \<noteq> CHR ''r'' \<Longrightarrow> run RGBA_PATTERN (s, c) = []"
proof (rule ccontr)
  assume s: "s = [] \<or> hd s \<noteq> CHR ''r''" and "run RGBA_PATTERN (s, c) \<noteq> []"
  then obtain st where "st \<in> set (run RGBA_PATTERN (s, c))"
    by (cases "run RGBA_PATTERN (s, c)") auto
  then obtain a n1 n2 n3 al where "s = rgbaText a n1 n2 n3 al @ fst st"
    using in_run_RGBA [of "fst st" "snd st" s c] by auto
  with s show False by (simp add: rgbaText_def)
qed

lemma match_skip: "x \<noteq> CHR ''r'' \<Longrightarrow> match RGBA_PATTERN (x # s) = match RGBA_PATTERN s"
  by (simp add: match.simps [of _ "x # s"] run_RGBA_other_start)

lemma fresh_Unsupported_iff:
  assumes "\<not> (s \<noteq> [] \<and> hd s = CHR ''#'')"
  shows "fresh s = Inl (UnsupportedFormat (Str s)) \<longleftrightarrow>
           \<not> occurs (filter (\<lambda>x. x \<noteq> CHR '' '') s)"
proof
  assume f: "fresh s = Inl (UnsupportedFormat (Str s))"
  have "components s = Inl (UnsupportedFormat (Str s))"
  proof (cases "components s")
    case (Inl e)
    with f show ?thesis by (simp add: fresh_def)
  next
    case (Inr rgb)
    with f have "arrayLuminance rgb = Inl (UnsupportedFormat (Str s))" by (simp add: fresh_def)
    from arrayLuminance_error [OF this] show ?thesis by simp
  qed
  from components_Unsupported [OF assms this]
  show "\<not> occurs (filter (\<lambda>x. x \<noteq> CHR '' '') s)" .
next
  assume "\<not> occurs (filter (\<lambda>x. x \<noteq> CHR '' '') s)"
  from components_no_match [OF assms this]
  show "fresh s = Inl (UnsupportedFormat (Str s))" by (simp add: fresh_def)
qed

text \<open>
  C4, as the specification states it, fails on the code. The pattern is searched for
  anywhere in the string, so \<open>xrgb(0,0,0)y\<close>, which is not of the grammar, is read as
  black. A string of the grammar need not succeed: \<open>rgb(256,0,0)\<close> fails in the range
  check, with the array as the literal of the error. And \<open>toString\<close>, which is not of
  the grammar, raises nothing: the cache object inherits a member of that name, and the
  lookup returns it.
\<close>

theorem functional_notation_counterexample:
  "\<not> spec_grammar (filter (\<lambda>x. x \<noteq> CHR '' '') ''xrgb(0,0,0)y'') \<and>
   colorLuminance (Str ''xrgb(0,0,0)y'') True Map.empty =
     (Inr (Number (Fin 0)), [''xrgb(0,0,0)y'' \<mapsto> Fin 0]) \<and>
   spec_grammar (filter (\<lambda>x. x \<noteq> CHR '' '') ''rgb(256,0,0)'') \<and>
   colorLuminance (Str ''rgb(256,0,0)'') True Map.empty =
     (Inl (UnsupportedFormat (Arr [Fin 256, Fin 0, Fin 0])), Map.empty) \<and>
   \<not> spec_grammar (filter (\<lambda>x. x \<noteq> CHR '' '') ''toString'') \<and>
   colorLuminance (Str ''toString'') True Map.empty =
     (Inr (Inherited ''toString''), Map.empty)"
proof -
  have w: "wellFormed ''0'' ''0'' ''0'' None" "wellFormed ''256'' ''0'' ''0'' None"
    by (simp_all add: wellFormed_def unsigned_def char_defs)
  have n: "toNumber ''0'' = Fin 0" "toNumber ''256'' = Fin 256"
    by (simp_all add: toNumber_def decimalValue_def char_defs)
  have g: "\<not> spec_grammar t" if "hd t \<noteq> CHR ''r''" for t
    using that by (auto simp: spec_grammar_def rgbaText_def)
  have 1: "\<not> spec_grammar (filter (\<lambda>x. x \<noteq> CHR '' '') ''xrgb(0,0,0)y'')"
    "\<not> spec_grammar (filter (\<lambda>x. x \<noteq> CHR '' '') ''toString'')"
    by (rule g, simp)+
  have "rgbaText False ''0'' ''0'' ''0'' None @ ''y'' = ''rgb(0,0,0)y''"
    by (simp add: rgbaText_def)
  from match_rgba [OF w(1), of False "''y''"] this
  have "match RGBA_PATTERN ''xrgb(0,0,0)y'' = Some (captured (\<lambda>i. None) ''0'' ''0'' ''0'' None)"
    by (simp add: match_skip)
  then have 2: "colorLuminance (Str ''xrgb(0,0,0)y'') True Map.empty =
     (Inr (Number (Fin 0)), [''xrgb(0,0,0)y'' \<mapsto> Fin 0])"
    by (simp add: colorLuminance_def lookup_def Object_prototype_def captured_def numberOf_def
          n assign_def arrayLuminance_def assertRgbColor_def componentsToLuminance_def)
  have "unsigned ''256'' \<and> unsigned ''0'' \<and> unsigned ''0'' \<and>
        (case None :: string option of None \<Rightarrow> True | Some x \<Rightarrow> spec_alpha x) \<and>
        filter (\<lambda>x. x \<noteq> CHR '' '') ''rgb(256,0,0)'' = rgbaText False ''256'' ''0'' ''0'' None"
    by (simp add: rgbaText_def unsigned_def char_defs)
  then have 3: "spec_grammar (filter (\<lambda>x. x \<noteq> CHR '' '') ''rgb(256,0,0)'')"
    unfolding spec_grammar_def by blast
  have "rgbaText False ''256'' ''0'' ''0'' None @ [] = ''rgb(256,0,0)''"
    by (simp add: rgbaText_def)
  from match_rgba [OF w(2), of False "[]"] this
  have "match RGBA_PATTERN ''rgb(256,0,0)'' = Some (captured (\<lambda>i. None) ''256'' ''0'' ''0'' None)"
    by simp
  then have 4: "colorLuminance (Str ''rgb(256,0,0)'') True Map.empty =
     (Inl (UnsupportedFormat (Arr [Fin 256, Fin 0, Fin 0])), Map.empty)"
    by (simp add: colorLuminance_def lookup_def Object_prototype_def captured_def numberOf_def
          n assign_def arrayLuminance_def assertRgbColor_def)
  have 5: "colorLuminance (Str ''toString'') True Map.empty =
     (Inr (Inherited ''toString''), Map.empty)"
    by (simp add: colorLuminance_def lookup_def Object_prototype_def)
  from 1 2 3 4 5 show ?thesis by simp
qed

lemma arrayLuminance_above:
  assumes "255 < r \<or> 255 < g \<or> 255 < b"
  shows "arrayLuminance [Fin r, Fin g, Fin b] = Inl (UnsupportedFormat (Arr [Fin r, Fin g, Fin b]))"
  using assms by (auto simp: arrayLuminance_def assertRgbColor_def)

text \<open>
  C4, amended. For a string that does not start with \<open>#\<close> and is not the name of a member
  the cache object inherits, on a cache the program can have. A form is \<open>rgb(N,N,N)\<close> or
  \<open>rgba(N,N,N)\<close>, or the same with an alpha component after a third comma: \<open>1\<close>, \<open>0\<close>, or
  a point and digits with or without a \<open>0\<close> before the point. \<open>colorLuminance\<close> throws
  \<open>UnsupportedFormat\<close> with the string exactly when no part of the string without its
  spaces is a form. Otherwise the first form decides, whatever precedes and follows it
  (by lemma \<open>occurs_first\<close> there is one, and by \<open>rgbaText_inject\<close> one reading of it): with
  the alpha component absent or \<open>1\<close> and no number above 255, the call returns the
  luminance of the three numbers and stores it under the string; with another alpha
  component it throws \<open>NeedsAlphaBlending\<close> with the string and the value of that
  component; with the alpha component absent or \<open>1\<close> and a number above 255 it throws
  \<open>UnsupportedFormat\<close> with the array of the three numbers.
\<close>

theorem functional_notation:
  assumes "reachable C" "\<not> (s \<noteq> [] \<and> hd s = CHR ''#'')" "s \<notin> set Object_prototype"
  shows "(colorLuminance (Str s) cache C = (Inl (UnsupportedFormat (Str s)), C) \<longleftrightarrow>
            \<not> occurs (filter (\<lambda>x. x \<noteq> CHR '' '') s)) \<and>
         (filter (\<lambda>x. x \<noteq> CHR '' '') s = pre @ rgbaText a n1 n2 n3 al @ post \<and>
          \<not> occurs pre \<and>
          unsigned n1 \<and> unsigned n2 \<and> unsigned n3 \<and> (al = None \<or> al = Some ''1'') \<and>
          decimalValue n1 \<le> 255 \<and> decimalValue n2 \<le> 255 \<and> decimalValue n3 \<le> 255 \<longrightarrow>
            colorLuminance (Str s) cache C =
              (Inr (Number (Fin (spec_luminance (real (decimalValue n1))
                       (real (decimalValue n2)) (real (decimalValue n3))))),
               C(s \<mapsto> Fin (spec_luminance (real (decimalValue n1))
                       (real (decimalValue n2)) (real (decimalValue n3)))))) \<and>
         (filter (\<lambda>x. x \<noteq> CHR '' '') s = pre @ rgbaText a n1 n2 n3 (Some x) @ post \<and>
          \<not> occurs pre \<and> wellFormed n1 n2 n3 (Some x) \<and> x \<noteq> ''1'' \<longrightarrow>
            colorLuminance (Str s) cache C =
              (Inl (NeedsAlphaBlending (Str s) (toNumber x)), C)) \<and>
         (filter (\<lambda>x. x \<noteq> CHR '' '') s = pre @ rgbaText a n1 n2 n3 al @ post \<and>
          \<not> occurs pre \<and>
          unsigned n1 \<and> unsigned n2 \<and> unsigned n3 \<and> (al = None \<or> al = Some ''1'') \<and>
          (255 < decimalValue n1 \<or> 255 < decimalValue n2 \<or> 255 < decimalValue n3) \<longrightarrow>
            colorLuminance (Str s) cache C =
              (Inl (UnsupportedFormat (Arr [Fin (real (decimalValue n1)),
                      Fin (real (decimalValue n2)), Fin (real (decimalValue n3))])), C)) \<and>
         (occurs (filter (\<lambda>x. x \<noteq> CHR '' '') s) \<longrightarrow>
            (\<exists>pre a n1 n2 n3 al post.
               wellFormed n1 n2 n3 al \<and> \<not> occurs pre \<and>
               filter (\<lambda>x. x \<noteq> CHR '' '') s = pre @ rgbaText a n1 n2 n3 al @ post))"
proof (intro conjI impI)
  show "colorLuminance (Str s) cache C = (Inl (UnsupportedFormat (Str s)), C) \<longleftrightarrow>
          \<not> occurs (filter (\<lambda>x. x \<noteq> CHR '' '') s)"
  proof
    assume r: "colorLuminance (Str s) cache C = (Inl (UnsupportedFormat (Str s)), C)"
    have "fresh s = Inl (UnsupportedFormat (Str s))"
    proof (cases "fresh s")
      case (Inl e)
      from reachable_error [OF assms(1) Inl assms(3), of cache] r Inl show ?thesis by simp
    next
      case (Inr l)
      from reachable_value [OF assms(1) Inr, of cache] r show ?thesis by simp
    qed
    then show "\<not> occurs (filter (\<lambda>x. x \<noteq> CHR '' '') s)"
      by (simp add: fresh_Unsupported_iff [OF assms(2)])
  next
    assume "\<not> occurs (filter (\<lambda>x. x \<noteq> CHR '' '') s)"
    then have "fresh s = Inl (UnsupportedFormat (Str s))"
      by (simp add: fresh_Unsupported_iff [OF assms(2)])
    from reachable_error [OF assms(1) this assms(3)]
    show "colorLuminance (Str s) cache C = (Inl (UnsupportedFormat (Str s)), C)" .
  qed
next
  assume a: "filter (\<lambda>x. x \<noteq> CHR '' '') s = pre @ rgbaText a n1 n2 n3 al @ post \<and>
          \<not> occurs pre \<and>
          unsigned n1 \<and> unsigned n2 \<and> unsigned n3 \<and> (al = None \<or> al = Some ''1'') \<and>
          decimalValue n1 \<le> 255 \<and> decimalValue n2 \<le> 255 \<and> decimalValue n3 \<le> 255"
  then have w: "wellFormed n1 n2 n3 al"
    by (auto simp: wellFormed_def alphaForm_def)
  from a have t: "filter (\<lambda>x. x \<noteq> CHR '' '') s = pre @ rgbaText a n1 n2 n3 al @ post"
    and no: "\<not> occurs pre" by simp_all
  from components_first_form [OF assms(2) t w no] a
  have "components s = Inr [Fin (real (decimalValue n1)), Fin (real (decimalValue n2)),
                            Fin (real (decimalValue n3))]"
    by (auto simp: toNumber_unsigned)
  from fresh_bytes [OF this] a
  have "fresh s = Inr (Fin (spec_luminance (real (decimalValue n1))
                       (real (decimalValue n2)) (real (decimalValue n3))))" by simp
  from reachable_value [OF assms(1) this]
  show "colorLuminance (Str s) cache C =
              (Inr (Number (Fin (spec_luminance (real (decimalValue n1))
                       (real (decimalValue n2)) (real (decimalValue n3))))),
               C(s \<mapsto> Fin (spec_luminance (real (decimalValue n1))
                       (real (decimalValue n2)) (real (decimalValue n3)))))" .
next
  assume a: "filter (\<lambda>x. x \<noteq> CHR '' '') s = pre @ rgbaText a n1 n2 n3 (Some x) @ post \<and>
          \<not> occurs pre \<and> wellFormed n1 n2 n3 (Some x) \<and> x \<noteq> ''1''"
  then have t: "filter (\<lambda>x. x \<noteq> CHR '' '') s = pre @ rgbaText a n1 n2 n3 (Some x) @ post"
    and w: "wellFormed n1 n2 n3 (Some x)" and no: "\<not> occurs pre" by simp_all
  from components_first_form [OF assms(2) t w no] a
  have "fresh s = Inl (NeedsAlphaBlending (Str s) (toNumber x))" by (simp add: fresh_def)
  from reachable_error [OF assms(1) this assms(3)]
  show "colorLuminance (Str s) cache C = (Inl (NeedsAlphaBlending (Str s) (toNumber x)), C)" .
next
  assume a: "filter (\<lambda>x. x \<noteq> CHR '' '') s = pre @ rgbaText a n1 n2 n3 al @ post \<and>
          \<not> occurs pre \<and>
          unsigned n1 \<and> unsigned n2 \<and> unsigned n3 \<and> (al = None \<or> al = Some ''1'') \<and>
          (255 < decimalValue n1 \<or> 255 < decimalValue n2 \<or> 255 < decimalValue n3)"
  then have w: "wellFormed n1 n2 n3 al"
    by (auto simp: wellFormed_def alphaForm_def)
  from a have t: "filter (\<lambda>x. x \<noteq> CHR '' '') s = pre @ rgbaText a n1 n2 n3 al @ post"
    and no: "\<not> occurs pre" by simp_all
  from components_first_form [OF assms(2) t w no] a
  have c: "components s = Inr [Fin (real (decimalValue n1)), Fin (real (decimalValue n2)),
                            Fin (real (decimalValue n3))]"
    by (auto simp: toNumber_unsigned)
  from a have "255 < real (decimalValue n1) \<or> 255 < real (decimalValue n2) \<or>
               255 < real (decimalValue n3)" by auto
  from arrayLuminance_above [OF this] c
  have "fresh s = Inl (UnsupportedFormat (Arr [Fin (real (decimalValue n1)),
                      Fin (real (decimalValue n2)), Fin (real (decimalValue n3))]))"
    by (simp add: fresh_def)
  from reachable_error [OF assms(1) this assms(3)]
  show "colorLuminance (Str s) cache C =
              (Inl (UnsupportedFormat (Arr [Fin (real (decimalValue n1)),
                      Fin (real (decimalValue n2)), Fin (real (decimalValue n3))])), C)" .
next
  assume "occurs (filter (\<lambda>x. x \<noteq> CHR '' '') s)"
  then show "\<exists>pre a n1 n2 n3 al post.
               wellFormed n1 n2 n3 al \<and> \<not> occurs pre \<and>
               filter (\<lambda>x. x \<noteq> CHR '' '') s = pre @ rgbaText a n1 n2 n3 al @ post"
    by (rule occurs_first)
qed

theorem functional_notation_witness:
  "colorLuminance (Str ''red'') True Map.empty = (Inl (UnsupportedFormat (Str ''red'')), Map.empty) \<and>
   colorLuminance (Str ''rgba(255, 0, 0, 1)'') True Map.empty =
     (Inr (Number (Fin 0.2126)), [''rgba(255, 0, 0, 1)'' \<mapsto> Fin 0.2126]) \<and>
   colorLuminance (Str ''xrgb(0,0,0)y'') True Map.empty =
     (Inr (Number (Fin 0)), [''xrgb(0,0,0)y'' \<mapsto> Fin 0]) \<and>
   colorLuminance (Str ''rgb(1,2,rgba(255,255,255,.4)'') True Map.empty =
     (Inl (NeedsAlphaBlending (Str ''rgb(1,2,rgba(255,255,255,.4)'') (Fin 0.4)), Map.empty) \<and>
   colorLuminance (Str ''rgb(256,0,0)'') True Map.empty =
     (Inl (UnsupportedFormat (Arr [Fin 256, Fin 0, Fin 0])), Map.empty)"
proof -
  have p: "\<not> (''red'' \<noteq> [] \<and> hd ''red'' = CHR ''#'')" "''red'' \<notin> set Object_prototype"
    "\<not> (''rgba(255, 0, 0, 1)'' \<noteq> [] \<and> hd ''rgba(255, 0, 0, 1)'' = CHR ''#'')"
    "''rgba(255, 0, 0, 1)'' \<notin> set Object_prototype"
    "\<not> (''xrgb(0,0,0)y'' \<noteq> [] \<and> hd ''xrgb(0,0,0)y'' = CHR ''#'')"
    "''xrgb(0,0,0)y'' \<notin> set Object_prototype"
    "\<not> (''rgb(1,2,rgba(255,255,255,.4)'' \<noteq> [] \<and> hd ''rgb(1,2,rgba(255,255,255,.4)'' = CHR ''#'')"
    "''rgb(1,2,rgba(255,255,255,.4)'' \<notin> set Object_prototype"
    "\<not> (''rgb(256,0,0)'' \<noteq> [] \<and> hd ''rgb(256,0,0)'' = CHR ''#'')"
    "''rgb(256,0,0)'' \<notin> set Object_prototype"
    by (simp_all add: Object_prototype_def)
  have "CHR ''('' \<notin> set (filter (\<lambda>x. x \<noteq> CHR '' '') ''red'')" by simp
  then have no: "\<not> occurs (filter (\<lambda>x. x \<noteq> CHR '' '') ''red'')"
    using occurs_has_paren by blast
  have "CHR ''('' \<notin> set []" "CHR ''('' \<notin> set ''x''" "CHR '')'' \<notin> set ''rgb(1,2,''" by simp_all
  then have e: "\<not> occurs []" "\<not> occurs ''x''" "\<not> occurs ''rgb(1,2,''"
    using occurs_has_paren occurs_has_close by blast+
  have v: "decimalValue ''255'' = 255" "decimalValue ''0'' = 0" "decimalValue ''256'' = 256"
    by (simp_all add: decimalValue_def char_defs)
  have l: "spec_luminance 255 0 0 = 0.2126" "spec_luminance 0 0 0 = 0"
    by (simp_all add: spec_luminance_def spec_linear_def)
  have a: "toNumber ''.4'' = Fin 0.4"
    by (simp add: toNumber_def decimalValue_def char_defs)
  have yes: "filter (\<lambda>x. x \<noteq> CHR '' '') ''rgba(255, 0, 0, 1)'' =
               [] @ rgbaText True ''255'' ''0'' ''0'' (Some ''1'') @ [] \<and> \<not> occurs [] \<and>
             unsigned ''255'' \<and> unsigned ''0'' \<and> unsigned ''0'' \<and>
             (Some ''1'' = None \<or> Some ''1'' = Some ''1'') \<and>
             decimalValue ''255'' \<le> 255 \<and> decimalValue ''0'' \<le> 255 \<and> decimalValue ''0'' \<le> 255"
    using e(1) by (simp add: rgbaText_def unsigned_def decimalValue_def char_defs)
  have inside: "filter (\<lambda>x. x \<noteq> CHR '' '') ''xrgb(0,0,0)y'' =
               ''x'' @ rgbaText False ''0'' ''0'' ''0'' None @ ''y'' \<and> \<not> occurs ''x'' \<and>
             unsigned ''0'' \<and> unsigned ''0'' \<and> unsigned ''0'' \<and>
             (None = None \<or> None = Some ''1'') \<and>
             decimalValue ''0'' \<le> 255 \<and> decimalValue ''0'' \<le> 255 \<and> decimalValue ''0'' \<le> 255"
    using e(2) by (simp add: rgbaText_def unsigned_def decimalValue_def char_defs)
  have alpha: "filter (\<lambda>x. x \<noteq> CHR '' '') ''rgb(1,2,rgba(255,255,255,.4)'' =
               ''rgb(1,2,'' @ rgbaText True ''255'' ''255'' ''255'' (Some ''.4'') @ [] \<and>
             \<not> occurs ''rgb(1,2,'' \<and> wellFormed ''255'' ''255'' ''255'' (Some ''.4'') \<and>
             ''.4'' \<noteq> ''1''"
    using e(3) by (simp add: rgbaText_def wellFormed_def alphaForm_def unsigned_def char_defs)
  have above: "filter (\<lambda>x. x \<noteq> CHR '' '') ''rgb(256,0,0)'' =
               [] @ rgbaText False ''256'' ''0'' ''0'' None @ [] \<and> \<not> occurs [] \<and>
             unsigned ''256'' \<and> unsigned ''0'' \<and> unsigned ''0'' \<and>
             (None = None \<or> None = Some ''1'') \<and>
             (255 < decimalValue ''256'' \<or> 255 < decimalValue ''0'' \<or> 255 < decimalValue ''0'')"
    using e(1) by (simp add: rgbaText_def unsigned_def decimalValue_def char_defs)
  from functional_notation [OF reachable.initial p(1,2), where cache = True] no
  have 1: "colorLuminance (Str ''red'') True Map.empty =
             (Inl (UnsupportedFormat (Str ''red'')), Map.empty)" by blast
  from functional_notation [OF reachable.initial p(3,4), where cache = True and a = True
      and ?n1.0 = "''255''" and ?n2.0 = "''0''" and ?n3.0 = "''0''" and al = "Some ''1''"
      and pre = "[]" and post = "[]"] yes
  have "colorLuminance (Str ''rgba(255, 0, 0, 1)'') True Map.empty =
     (Inr (Number (Fin (spec_luminance (real (decimalValue ''255''))
                       (real (decimalValue ''0'')) (real (decimalValue ''0''))))),
      [''rgba(255, 0, 0, 1)'' \<mapsto> Fin (spec_luminance (real (decimalValue ''255''))
                       (real (decimalValue ''0'')) (real (decimalValue ''0'')))])" by blast
  then have 2: "colorLuminance (Str ''rgba(255, 0, 0, 1)'') True Map.empty =
     (Inr (Number (Fin 0.2126)), [''rgba(255, 0, 0, 1)'' \<mapsto> Fin 0.2126])"
    by (simp only: v l of_nat_numeral of_nat_0)
  from functional_notation [OF reachable.initial p(5,6), where cache = True and a = False
      and ?n1.0 = "''0''" and ?n2.0 = "''0''" and ?n3.0 = "''0''" and al = None
      and pre = "''x''" and post = "''y''"] inside
  have "colorLuminance (Str ''xrgb(0,0,0)y'') True Map.empty =
     (Inr (Number (Fin (spec_luminance (real (decimalValue ''0''))
                       (real (decimalValue ''0'')) (real (decimalValue ''0''))))),
      [''xrgb(0,0,0)y'' \<mapsto> Fin (spec_luminance (real (decimalValue ''0''))
                       (real (decimalValue ''0'')) (real (decimalValue ''0'')))])" by blast
  then have 3: "colorLuminance (Str ''xrgb(0,0,0)y'') True Map.empty =
     (Inr (Number (Fin 0)), [''xrgb(0,0,0)y'' \<mapsto> Fin 0])"
    by (simp only: v l of_nat_numeral of_nat_0)
  from functional_notation [OF reachable.initial p(7,8), where cache = True and a = True
      and ?n1.0 = "''255''" and ?n2.0 = "''255''" and ?n3.0 = "''255''" and x = "''.4''"
      and pre = "''rgb(1,2,''" and post = "[]"] alpha
  have "colorLuminance (Str ''rgb(1,2,rgba(255,255,255,.4)'') True Map.empty =
     (Inl (NeedsAlphaBlending (Str ''rgb(1,2,rgba(255,255,255,.4)'') (toNumber ''.4'')), Map.empty)"
    by blast
  then have 4: "colorLuminance (Str ''rgb(1,2,rgba(255,255,255,.4)'') True Map.empty =
     (Inl (NeedsAlphaBlending (Str ''rgb(1,2,rgba(255,255,255,.4)'') (Fin 0.4)), Map.empty)"
    by (simp only: a)
  from functional_notation [OF reachable.initial p(9,10), where cache = True and a = False
      and ?n1.0 = "''256''" and ?n2.0 = "''0''" and ?n3.0 = "''0''" and al = None
      and pre = "[]" and post = "[]"] above
  have "colorLuminance (Str ''rgb(256,0,0)'') True Map.empty =
     (Inl (UnsupportedFormat (Arr [Fin (real (decimalValue ''256'')),
                      Fin (real (decimalValue ''0'')), Fin (real (decimalValue ''0''))])), Map.empty)"
    by blast
  then have 5: "colorLuminance (Str ''rgb(256,0,0)'') True Map.empty =
     (Inl (UnsupportedFormat (Arr [Fin 256, Fin 0, Fin 0])), Map.empty)"
    by (simp only: v of_nat_numeral of_nat_0)
  from 1 2 3 4 5 show ?thesis by simp
qed

section \<open>Contrast of a luminance below one millionth\<close>

lemma decimal_small: "n < 10 \<Longrightarrow> decimal n = [char_of (48 + n)]"
  by (simp add: decimal.simps)

lemma decimal_large: "10 \<le> n \<Longrightarrow> decimal n = decimal (n div 10) @ [char_of (48 + n mod 10)]"
  by (subst decimal.simps) simp

lemma one_as_string: "numberToString (Fin 1) = ''1''"
proof -
  have "decimal 10000000000000000 = ''10000000000000000''"
    by (simp add: decimal_small decimal_large char_of_eq_iff)
  then show ?thesis
    by (simp add: numberToString_def positiveToString_def stripZeros_def)
qed

lemma tiny_blue_as_string: "numberToString (Fin (19 / 86700000)) = ''2.1914648212226066e-7''"
proof -
  have n: "\<lfloor>log 10 (19 / 86700000 :: real)\<rfloor> = - 7"
    by (simp add: floor_log_eq_powr_iff powr_minus_divide)
  have f: "\<lfloor>19 / 86700000 * 10 powi 23 :: real\<rfloor> = 21914648212226066"
    by (simp add: floor_eq_iff)
  have d: "decimal 21914648212226066 = ''21914648212226066''" "decimal 7 = ''7''"
    by (simp_all add: decimal_small decimal_large char_of_eq_iff)
  show ?thesis
    by (simp add: numberToString_def positiveToString_def n f d stripZeros_def)
qed

lemma tiny_red_as_string: "numberToString (Fin (1063 / 1647300000)) = ''6.452983670248285e-7''"
proof -
  have n: "\<lfloor>log 10 (1063 / 1647300000 :: real)\<rfloor> = - 7"
    by (simp add: floor_log_eq_powr_iff powr_minus_divide)
  have f: "\<lfloor>1063 / 1647300000 * 10 powi 23 :: real\<rfloor> = 64529836702482850"
    by (simp add: floor_eq_iff)
  have d: "decimal 64529836702482850 = ''64529836702482850''" "decimal 7 = ''7''"
    by (simp_all add: decimal_small decimal_large char_of_eq_iff)
  show ?thesis
    by (simp add: numberToString_def positiveToString_def n f d stripZeros_def)
qed

lemma tiny_blue: "arrayLuminance [Fin 0, Fin 0, Fin 0.01] = Inr (Fin (19 / 86700000))"
  by (simp add: arrayLuminance_def assertRgbColor_def componentsToLuminance_def)

lemma tiny_red: "arrayLuminance [Fin 0.01, Fin 0, Fin 0] = Inr (Fin (1063 / 1647300000))"
  by (simp add: arrayLuminance_def assertRgbColor_def componentsToLuminance_def)

lemma white: "arrayLuminance [Fin 255, Fin 255, Fin 255] = Inr (Fin 1)"
  by (simp add: arrayLuminance_def assertRgbColor_def componentsToLuminance_def)

text \<open>
  C2 fails on the code. The luminance of \<open>[0, 0, 0.01]\<close> is below \<open>1e-6\<close> and its string
  form, \<open>2.19...e-7\<close>, comes after \<open>1\<close>, the string form of the luminance of white: the
  sort puts the luminance of white first, and \<open>contrast\<close> divides the smaller luminance
  plus 0.05 by the larger plus 0.05.
\<close>

theorem contrast_sorts_strings:
  "colorLuminance (Arr [Fin 0, Fin 0, Fin 0.01]) True Map.empty =
     (Inr (Number (Fin (19 / 86700000))), Map.empty) \<and>
   colorLuminance (Arr [Fin 255, Fin 255, Fin 255]) True Map.empty =
     (Inr (Number (Fin 1)), Map.empty) \<and>
   sort2 (Fin (19 / 86700000)) (Fin 1) = (Fin 1, Fin (19 / 86700000)) \<and>
   contrast (Arr [Fin 0, Fin 0, Fin 0.01]) (Arr [Fin 255, Fin 255, Fin 255]) Map.empty =
     (Inr (Fin ((19 / 86700000 + 0.05) / (1 + 0.05))), Map.empty)"
proof -
  have 1: "colorLuminance (Arr [Fin 0, Fin 0, Fin 0.01]) True Map.empty =
     (Inr (Number (Fin (19 / 86700000))), Map.empty)"
    by (simp only: colorLuminance_Arr tiny_blue sum.case)
  have 2: "colorLuminance (Arr [Fin 255, Fin 255, Fin 255]) True Map.empty =
     (Inr (Number (Fin 1)), Map.empty)"
    by (simp only: colorLuminance_Arr white sum.case)
  have 3: "sort2 (Fin (19 / 86700000)) (Fin 1) = (Fin 1, Fin (19 / 86700000))"
    by (simp add: sort2_def one_as_string tiny_blue_as_string code_def)
  have "contrast (Arr [Fin 0, Fin 0, Fin 0.01]) (Arr [Fin 255, Fin 255, Fin 255]) Map.empty =
     (Inr (Fin ((19 / 86700000 + 0.05) / (1 + 0.05))), Map.empty)"
    unfolding contrast_def by (simp only: 1 2 3 prod.case sum.case jsvalue.case Let_def) simp
  with 1 2 3 show ?thesis by simp
qed

text \<open>
  C7 fails on the code in its second half. For white and \<open>[0.01, 0, 0]\<close> the string
  forms are \<open>1\<close> and \<open>6.45...e-7\<close>, the sort leaves white first, and the contrast is
  below 1.
\<close>

theorem contrast_below_one:
  "contrast (Str ''#ffffff'') (Arr [Fin 0.01, Fin 0, Fin 0]) Map.empty =
     (Inr (Fin ((1063 / 1647300000 + 0.05) / (1 + 0.05))), [''#ffffff'' \<mapsto> Fin 1]) \<and>
   (1063 / 1647300000 + 0.05) / (1 + 0.05) < (1 :: real)"
proof -
  have 1: "colorLuminance (Str ''#ffffff'') True Map.empty =
     (Inr (Number (Fin 1)), [''#ffffff'' \<mapsto> Fin 1])"
    by (simp add: eval_defs)
  have 2: "colorLuminance (Arr [Fin 0.01, Fin 0, Fin 0]) True [''#ffffff'' \<mapsto> Fin 1] =
     (Inr (Number (Fin (1063 / 1647300000))), [''#ffffff'' \<mapsto> Fin 1])"
    by (simp only: colorLuminance_Arr tiny_red sum.case)
  have 3: "sort2 (Fin 1) (Fin (1063 / 1647300000)) = (Fin 1, Fin (1063 / 1647300000))"
    by (simp add: sort2_def one_as_string tiny_red_as_string code_def)
  have "contrast (Str ''#ffffff'') (Arr [Fin 0.01, Fin 0, Fin 0]) Map.empty =
     (Inr (Fin ((1063 / 1647300000 + 0.05) / (1 + 0.05))), [''#ffffff'' \<mapsto> Fin 1])"
    unfolding contrast_def by (simp only: 1 2 3 prod.case sum.case jsvalue.case Let_def) simp
  then show ?thesis by simp
qed

section \<open>The range of the luminance\<close>

lemma spec_linear_range: "0 \<le> c \<Longrightarrow> c \<le> 1 \<Longrightarrow> 0 \<le> spec_linear c \<and> spec_linear c \<le> 1"
proof -
  assume c: "0 \<le> c" "c \<le> 1"
  then have "0 \<le> (c + 0.055) / 1.055" "(c + 0.055) / 1.055 \<le> 1" by simp_all
  then have "((c + 0.055) / 1.055) powr 2.4 \<le> 1 powr 2.4"
    by (intro powr_mono2) simp_all
  with c show ?thesis by (simp add: spec_linear_def)
qed

lemma spec_luminance_range:
  assumes "0 \<le> r" "r \<le> 255" "0 \<le> g" "g \<le> 255" "0 \<le> b" "b \<le> 255"
  shows "0 \<le> spec_luminance r g b \<and> spec_luminance r g b \<le> 1"
proof -
  from assms have "0 \<le> spec_linear (r / 255) \<and> spec_linear (r / 255) \<le> 1"
    "0 \<le> spec_linear (g / 255) \<and> spec_linear (g / 255) \<le> 1"
    "0 \<le> spec_linear (b / 255) \<and> spec_linear (b / 255) \<le> 1"
    by (simp_all add: spec_linear_range)
  then show ?thesis unfolding spec_luminance_def by simp
qed

lemma componentsToLuminance_NaN:
  "componentsToLuminance r g b = Fin v \<Longrightarrow> r \<noteq> NaN \<and> g \<noteq> NaN \<and> b \<noteq> NaN"
  by (cases r; cases g; cases b) (simp_all add: componentsToLuminance_def Let_def)

lemma arrayLuminance_range:
  assumes "arrayLuminance a = Inr (Fin v)"
  shows "0 \<le> v \<and> v \<le> 1"
proof -
  from assms have ok: "assertRgbColor a = None"
    and l: "componentsToLuminance (num_div (a ! 0) (Fin 255)) (num_div (a ! 1) (Fin 255))
              (num_div (a ! 2) (Fin 255)) = Fin v"
    by (simp_all add: arrayLuminance_def split: option.splits)
  from ok have len: "3 \<le> length a"
    and all: "\<forall>d \<in> set a. \<not> num_lt d (Fin 0) \<and> \<not> num_gt d (Fin 255)"
    by (auto simp: assertRgbColor_def list_ex_iff split: if_splits)
  from componentsToLuminance_NaN [OF l] obtain r g b where
    rgb: "a ! 0 = Fin r" "a ! 1 = Fin g" "a ! 2 = Fin b"
    by (cases "a ! 0"; cases "a ! 1"; cases "a ! 2") simp_all
  from len have i: "0 < length a" "1 < length a" "2 < length a" by arith+
  have "a ! 0 \<in> set a" "a ! 1 \<in> set a" "a ! 2 \<in> set a"
    by (rule nth_mem [OF i(1)], rule nth_mem [OF i(2)], rule nth_mem [OF i(3)])
  with all rgb have range: "0 \<le> r" "r \<le> 255" "0 \<le> g" "g \<le> 255" "0 \<le> b" "b \<le> 255"
    by (auto simp: not_less)
  have "componentsToLuminance (num_div (Fin r) (Fin 255)) (num_div (Fin g) (Fin 255))
          (num_div (Fin b) (Fin 255)) = Fin (spec_luminance r g b)"
    unfolding componentsToLuminance_def Let_def
    using range by (simp only: linear_channel) (simp add: spec_luminance_def)
  with l rgb have "v = spec_luminance r g b" by simp
  with spec_luminance_range [OF range] show ?thesis by simp
qed

lemma luminance_range:
  assumes "reachable C" "fst (colorLuminance color cache C) = Inr (Number (Fin v))"
  shows "0 \<le> v \<and> v \<le> 1"
proof -
  have f: "0 \<le> v \<and> v \<le> 1" if "fresh s = Inr (Fin v)" for s
    using that arrayLuminance_range by (auto simp: fresh_def split: sum.splits)
  show ?thesis
  proof (cases color)
    case (Arr a)
    with assms(2) show ?thesis
      by (auto simp: colorLuminance_Arr split: sum.splits dest: arrayLuminance_range)
  next
    case (Str s)
    show ?thesis
    proof (cases "cache \<and> truthy (lookup C s)")
      case True
      with reachable_hit [OF assms(1), of s] assms(2) Str
      have "fresh s = Inr (Fin v)" by (auto simp: colorLuminance_Str)
      then show ?thesis by (rule f)
    next
      case False
      with assms(2) Str have "fresh s = Inr (Fin v)"
        by (auto simp: colorLuminance_Str split: sum.splits)
      then show ?thesis by (rule f)
    qed
  qed
qed

lemma contrast_divisor_positive:
  assumes "reachable C" "fst (colorLuminance color cache C) = Inr (Number l)"
  shows "num_add l (Fin 0.05) \<noteq> Fin 0"
proof (cases l)
  case NaN
  then show ?thesis by simp
next
  case (Fin v)
  with luminance_range [OF assms(1), of color cache v] assms(2) show ?thesis by simp
qed

section \<open>The values the test suite expects\<close>

text \<open>
  The model gives the values the tests of the repository check: luminances of the pure
  colours in the three notations, contrasts of colours written with bytes, and the two
  errors.
\<close>

lemma zero_as_string: "numberToString (Fin 0) = ''0''"
  by (simp add: numberToString_def)

lemma red_as_string: "numberToString (Fin 0.2126) = ''0.2126''"
proof -
  have n: "\<lfloor>log 10 (1063 / 5000 :: real)\<rfloor> = - 1"
    by (simp add: floor_log_eq_powr_iff powr_minus_divide)
  have f: "\<lfloor>1063 * 10 powi 17 / 5000 :: real\<rfloor> = 21260000000000000"
    by (simp add: floor_eq_iff)
  have d: "decimal 21260000000000000 = ''21260000000000000''"
    by (simp add: decimal_small decimal_large char_of_eq_iff)
  show ?thesis
    by (simp add: numberToString_def positiveToString_def n f d stripZeros_def)
qed

lemma tested_luminances:
  "fst (colorLuminance (Str ''#fff'') True Map.empty) = Inr (Number (Fin 1))"
  "fst (colorLuminance (Str ''#000'') True Map.empty) = Inr (Number (Fin 0))"
  "fst (colorLuminance (Str ''#f00'') True Map.empty) = Inr (Number (Fin 0.2126))"
  "fst (colorLuminance (Str ''#00ff00'') True Map.empty) = Inr (Number (Fin 0.7152))"
  "fst (colorLuminance (Str ''#0000ffff'') True Map.empty) = Inr (Number (Fin 0.0722))"
  "fst (colorLuminance (Arr [Fin 255, Fin 0, Fin 0, Fin 1]) True Map.empty) =
     Inr (Number (Fin 0.2126))"
  by (simp_all add: eval_defs)

lemma tested_contrasts:
  "fst (contrast (Str ''#fff'') (Str ''#000'') Map.empty) = Inr (Fin 21)"
  "fst (contrast (Str ''#000'') (Str ''#fff'') Map.empty) = Inr (Fin 21)"
  "fst (contrast (Str ''#fff'') (Str ''#fff'') Map.empty) = Inr (Fin 1)"
  "fst (contrast (Str ''#f00'') (Str ''#000'') Map.empty) = Inr (Fin 5.252)"
proof -
  have s: "sort2 (Fin 1) (Fin 0) = (Fin 0, Fin 1)" "sort2 (Fin 0) (Fin 1) = (Fin 0, Fin 1)"
    "sort2 (Fin 1) (Fin 1) = (Fin 1, Fin 1)" "sort2 (Fin 0.2126) (Fin 0) = (Fin 0, Fin 0.2126)"
    by (simp_all only: sort2_def one_as_string zero_as_string red_as_string)
       (simp_all add: code_def)
  from s(4) have s': "sort2 (Fin (1063 / 5000)) (Fin 0) = (Fin 0, Fin (1063 / 5000))"
    by simp
  have w: "colorLuminance (Str ''#fff'') True C =
             (if truthy (lookup C ''#fff'') then (Inr (the (lookup C ''#fff'')), C)
              else (Inr (Number (Fin 1)), C(''#fff'' \<mapsto> Fin 1)))" for C
    by (simp add: eval_defs)
  have b: "colorLuminance (Str ''#000'') True C =
             (if truthy (lookup C ''#000'') then (Inr (the (lookup C ''#000'')), C)
              else (Inr (Number (Fin 0)), C(''#000'' \<mapsto> Fin 0)))" for C
    by (simp add: eval_defs)
  have r: "colorLuminance (Str ''#f00'') True Map.empty =
             (Inr (Number (Fin 0.2126)), [''#f00'' \<mapsto> Fin 0.2126])"
    by (simp add: eval_defs)
  show "fst (contrast (Str ''#fff'') (Str ''#000'') Map.empty) = Inr (Fin 21)"
    by (simp add: contrast_def w b lookup_def Object_prototype_def s)
  show "fst (contrast (Str ''#000'') (Str ''#fff'') Map.empty) = Inr (Fin 21)"
    by (simp add: contrast_def w b lookup_def Object_prototype_def s)
  show "fst (contrast (Str ''#fff'') (Str ''#fff'') Map.empty) = Inr (Fin 1)"
    by (simp add: contrast_def w lookup_def Object_prototype_def s)
  show "fst (contrast (Str ''#f00'') (Str ''#000'') Map.empty) = Inr (Fin 5.252)"
    unfolding contrast_def
    by (simp only: r b prod.case sum.case) (simp add: lookup_def Object_prototype_def s')
qed

lemma tested_errors:
  "fst (colorLuminance (Str ''red'') True Map.empty) = Inl (UnsupportedFormat (Str ''red''))"
  "fst (colorLuminance (Str ''hsla(0, 0, 0, 1)'') True Map.empty) =
     Inl (UnsupportedFormat (Str ''hsla(0, 0, 0, 1)''))"
proof -
  have "CHR ''('' \<notin> set ''red''" by simp
  then have "\<not> occurs ''red''" using occurs_has_paren by blast
  then have 1: "match RGBA_PATTERN ''red'' = None" by (simp add: match_rgba_None)
  have "match RGBA_PATTERN [] = None"
    by (simp add: match.simps [of _ "[]"] run_RGBA_other_start)
  then have 2: "match RGBA_PATTERN ''hsla(0,0,0,1)'' = None"
    by (simp add: match_skip)
  from 1 2 show
    "fst (colorLuminance (Str ''red'') True Map.empty) = Inl (UnsupportedFormat (Str ''red''))"
    "fst (colorLuminance (Str ''hsla(0, 0, 0, 1)'') True Map.empty) =
       Inl (UnsupportedFormat (Str ''hsla(0, 0, 0, 1)''))"
    by (simp_all add: colorLuminance_def lookup_def Object_prototype_def)
qed

end
